theory Spec2Isabelle
  imports Complex_Main "HOL-Library.Signed_Division" "HOL-Library.Product_Lexorder"
    "HOL-Library.AList" "HOL-Library.Multiset"
begin

section \<open>The placement engine of \<^verbatim>\<open>src/v09.cpp\<close>\<close>

text \<open>
  The engine keeps a four-level fleet (Domain, Rack, PM, Node), a registry of placement
  groups and a registry of VMs. Objects of the fleet are addressed by their position:
  the \<^verbatim>\<open>index\<close> fields of the source (1-based) along the path from the Domain.
  A \<^verbatim>\<open>Node *\<close>, \<^verbatim>\<open>PM *\<close>, \<^verbatim>\<open>Rack *\<close> or
  \<^verbatim>\<open>Domain *\<close> of the source is such a path; the parent pointers
  \<^verbatim>\<open>node->pm\<close>, \<^verbatim>\<open>pm->rack\<close>, \<^verbatim>\<open>rack->domain\<close> drop the last
  component. A \<^verbatim>\<open>VM *\<close> is the key of the VM in \<^verbatim>\<open>vmsByIndex\<close>, a
  \<^verbatim>\<open>PG *\<close> the key of the group in \<^verbatim>\<open>pgsByIndex\<close> (pointers into an
  \<^verbatim>\<open>unordered_map\<close> are stable).

  The C++ \<^verbatim>\<open>int\<close> is modelled by \<^typ>\<open>int\<close>: the quantities are sums of the
  capacities of the header and never leave the 32-bit range on inputs of the stated format.
  \<^verbatim>\<open>double\<close> loads and penalties are modelled by exact rationals.
\<close>

subsection \<open>Data\<close>

datatype Affinity = NONE | SOFT | HARD

record Type =
  t_index :: int
  t_nodes :: int
  t_cpu :: int
  t_memory :: int

type_synonym domId = nat
type_synonym rackId = "nat \<times> nat"
type_synonym pmId = "nat \<times> nat \<times> nat"
type_synonym nodeId = "nat \<times> nat \<times> nat \<times> nat"

fun pmOf :: "nodeId \<Rightarrow> pmId" where
  "pmOf (d, r, p, n) = (d, r, p)"

fun rackOf :: "pmId \<Rightarrow> rackId" where
  "rackOf (d, r, p) = (d, r)"

fun domainOf :: "rackId \<Rightarrow> domId" where
  "domainOf (d, r) = d"

text \<open>The address of an object that carries resources (a \<^verbatim>\<open>WithResources *\<close>).\<close>

datatype obj = AtNode nodeId | AtPM pmId | AtRack rackId | AtDomain domId

record WithResources =
  totalCPU :: int
  totalMemory :: int
  availableCPU :: int
  availableMemory :: int
  typeFits :: "int \<rightharpoonup> int"

record PG =
  pg_index :: int
  hardRackAntiAffinityPartitions :: int
  softPMAntiAffinity :: int
  domainAffinity :: Affinity
  rackAffinity :: Affinity
  vms :: "int list"
  targetDomain :: "domId option"
  domainAffinityPossible :: bool
  targetRack :: "rackId option"
  rackAffinityPossible :: bool
  softPMAntiAffinityPossible :: bool
  partitionRacks :: "(int \<times> rackId list) list"

record VM =
  vm_index :: int
  vm_type :: Type
  vm_pg :: int
  partition :: int
  vm_nodes :: "nodeId list"

text \<open>
  \<^verbatim>\<open>PM::vmsByPG\<close> is only read and written through \<^verbatim>\<open>operator[]\<close>, which gives a
  missing key the value 0: the table of every PM is a total function with default 0.
\<close>

record Manager =
  noDomains :: nat
  noRacks :: nat
  noPMs :: nat
  noNodes :: nat
  types :: "Type list"
  store :: "obj \<Rightarrow> WithResources"
  vmsByPG :: "pmId \<Rightarrow> int \<Rightarrow> int"
  pgsByIndex :: "int \<rightharpoonup> PG"
  vmsByIndex :: "int \<rightharpoonup> VM"

record Placement =
  placements :: "(int \<times> nodeId list) list"
  penalty :: rat

text \<open>The children of an object, in index order (\<^verbatim>\<open>domains\<close>, \<^verbatim>\<open>racks\<close>,
  \<^verbatim>\<open>pms\<close>, \<^verbatim>\<open>nodes\<close>; \<^verbatim>\<open>getVectorPointers\<close>).\<close>

definition domainsOf :: "Manager \<Rightarrow> domId list" where
  "domainsOf m = [1..<Suc (noDomains m)]"

definition racksOf :: "Manager \<Rightarrow> domId \<Rightarrow> rackId list" where
  "racksOf m d = map (\<lambda>r. (d, r)) [1..<Suc (noRacks m)]"

definition pmsOf :: "Manager \<Rightarrow> rackId \<Rightarrow> pmId list" where
  "pmsOf m r = map (\<lambda>p. (fst r, snd r, p)) [1..<Suc (noPMs m)]"

definition nodesOf :: "Manager \<Rightarrow> pmId \<Rightarrow> nodeId list" where
  "nodesOf m p = map (\<lambda>n. (fst p, fst (snd p), snd (snd p), n)) [1..<Suc (noNodes m)]"

definition allRacks :: "Manager \<Rightarrow> rackId list" where
  "allRacks m = concat (map (racksOf m) (domainsOf m))"

subsection \<open>Resource accounting (\<^verbatim>\<open>WithResources\<close>)\<close>

definition claimResources :: "Type \<Rightarrow> WithResources \<Rightarrow> WithResources" where
  "claimResources ty w =
     w\<lparr>availableCPU := availableCPU w - t_cpu ty,
       availableMemory := availableMemory w - t_memory ty,
       typeFits := Map.empty\<rparr>"

definition releaseResources :: "Type \<Rightarrow> WithResources \<Rightarrow> WithResources" where
  "releaseResources ty w =
     w\<lparr>availableCPU := availableCPU w + t_cpu ty,
       availableMemory := availableMemory w + t_memory ty,
       typeFits := Map.empty\<rparr>"

definition hasResources :: "WithResources \<Rightarrow> int \<Rightarrow> int \<Rightarrow> bool" where
  "hasResources w c mem \<longleftrightarrow> availableCPU w \<ge> c \<and> availableMemory w \<ge> mem"

definition hasResourcesType :: "WithResources \<Rightarrow> Type \<Rightarrow> bool" where
  "hasResourcesType w ty = hasResources w (t_nodes ty * t_cpu ty) (t_nodes ty * t_memory ty)"

definition getLoad :: "WithResources \<Rightarrow> rat" where
  "getLoad w =
     (let loadCPU = of_int (totalCPU w - availableCPU w) / of_int (totalCPU w);
          loadMemory = of_int (totalMemory w - availableMemory w) / of_int (totalMemory w)
      in max loadCPU loadMemory)"

definition loadOf :: "Manager \<Rightarrow> rackId \<Rightarrow> rat" where
  "loadOf m r = getLoad (store m (AtRack r))"

subsection \<open>Type fit, memoised per object\<close>

text \<open>
  \<^verbatim>\<open>getTypeFit\<close>: the cached value when \<^verbatim>\<open>typeFits\<close> has the type's index,
  otherwise \<^verbatim>\<open>getTypeFitImpl\<close>, whose value is then stored. The implementation at a
  level calls \<^verbatim>\<open>getTypeFit\<close> of the children, which fills their caches: the Manager
  is threaded through.
\<close>

definition memo :: "obj \<Rightarrow> Type \<Rightarrow> (Manager \<Rightarrow> int \<times> Manager) \<Rightarrow> Manager \<Rightarrow> int \<times> Manager" where
  "memo x ty impl m =
     (case typeFits (store m x) (t_index ty) of
        Some v \<Rightarrow> (v, m)
      | None \<Rightarrow>
          (let (v, m') = impl m
           in (v, m'\<lparr>store := (store m')
                 (x := (store m' x)\<lparr>typeFits := (typeFits (store m' x))(t_index ty \<mapsto> v)\<rparr>)\<rparr>)))"

text \<open>Calls \<open>f\<close> on every element in order and collects the values.\<close>

fun fitList :: "('a \<Rightarrow> Manager \<Rightarrow> int \<times> Manager) \<Rightarrow> 'a list \<Rightarrow> Manager \<Rightarrow> int list \<times> Manager" where
  "fitList f [] m = ([], m)"
| "fitList f (x # xs) m =
     (let (v, m1) = f x m; (vs, m2) = fitList f xs m1 in (v # vs, m2))"

text \<open>
  The loop \<^verbatim>\<open>for (i = 0; i < byNode.size(); i += type.nodes) count += byNode[i]\<close>.
  The types of the header have \<^verbatim>\<open>nodes >= 1\<close>; for a stride below 1 the source does
  not leave the loop normally, and the model stops after the first element.
\<close>

fun strideSum :: "nat \<Rightarrow> int list \<Rightarrow> int" where
  "strideSum k [] = 0"
| "strideSum k (x # xs) = x + (if k = 0 then 0 else strideSum k (drop (k - 1) xs))"

text \<open>Integer division of the source truncates towards zero: \<open>sdiv\<close>.\<close>

definition nodeFitOf :: "WithResources \<Rightarrow> Type \<Rightarrow> int" where
  "nodeFitOf w ty = min (availableCPU w sdiv t_cpu ty) (availableMemory w sdiv t_memory ty)"

definition getTypeFitNode :: "Type \<Rightarrow> nodeId \<Rightarrow> Manager \<Rightarrow> int \<times> Manager" where
  "getTypeFitNode ty n = memo (AtNode n) ty (\<lambda>m. (nodeFitOf (store m (AtNode n)) ty, m))"

definition getTypeFitPM :: "Type \<Rightarrow> pmId \<Rightarrow> Manager \<Rightarrow> int \<times> Manager" where
  "getTypeFitPM ty p = memo (AtPM p) ty
     (\<lambda>m. let (byNode, m') = fitList (getTypeFitNode ty) (nodesOf m p) m
          in (strideSum (nat (t_nodes ty)) (sort byNode), m'))"

definition getTypeFitRack :: "Type \<Rightarrow> rackId \<Rightarrow> Manager \<Rightarrow> int \<times> Manager" where
  "getTypeFitRack ty r = memo (AtRack r) ty
     (\<lambda>m. let (byPM, m') = fitList (getTypeFitPM ty) (pmsOf m r) m in (sum_list byPM, m'))"

definition getTypeFitDomain :: "Type \<Rightarrow> domId \<Rightarrow> Manager \<Rightarrow> int \<times> Manager" where
  "getTypeFitDomain ty d = memo (AtDomain d) ty
     (\<lambda>m. let (byRack, m') = fitList (getTypeFitRack ty) (racksOf m d) m in (sum_list byRack, m'))"

fun getTypeFit :: "obj \<Rightarrow> Type \<Rightarrow> Manager \<Rightarrow> int \<times> Manager" where
  "getTypeFit (AtNode n) ty m = getTypeFitNode ty n m"
| "getTypeFit (AtPM p) ty m = getTypeFitPM ty p m"
| "getTypeFit (AtRack r) ty m = getTypeFitRack ty r m"
| "getTypeFit (AtDomain d) ty m = getTypeFitDomain ty d m"






subsection \<open>Placing and unplacing a VM (\<^verbatim>\<open>VM::place\<close>, \<^verbatim>\<open>VM::unplace\<close>)\<close>

definition isPlaced :: "VM \<Rightarrow> bool" where
  "isPlaced vm \<longleftrightarrow> vm_nodes vm \<noteq> []"

definition claimAt :: "Type \<Rightarrow> obj \<Rightarrow> Manager \<Rightarrow> Manager" where
  "claimAt ty x m = m\<lparr>store := (store m)(x := claimResources ty (store m x))\<rparr>"

definition releaseAt :: "Type \<Rightarrow> obj \<Rightarrow> Manager \<Rightarrow> Manager" where
  "releaseAt ty x m = m\<lparr>store := (store m)(x := releaseResources ty (store m x))\<rparr>"

text \<open>The body of the loop over the nodes of a placement: the node, its PM, its Rack, its
  Domain, in this order.\<close>

definition claimNode :: "Type \<Rightarrow> nodeId \<Rightarrow> Manager \<Rightarrow> Manager" where
  "claimNode ty n m =
     claimAt ty (AtDomain (domainOf (rackOf (pmOf n))))
       (claimAt ty (AtRack (rackOf (pmOf n)))
         (claimAt ty (AtPM (pmOf n))
           (claimAt ty (AtNode n) m)))"

definition releaseNode :: "Type \<Rightarrow> nodeId \<Rightarrow> Manager \<Rightarrow> Manager" where
  "releaseNode ty n m =
     releaseAt ty (AtDomain (domainOf (rackOf (pmOf n))))
       (releaseAt ty (AtRack (rackOf (pmOf n)))
         (releaseAt ty (AtPM (pmOf n))
           (releaseAt ty (AtNode n) m)))"

definition addVmsByPG :: "pmId \<Rightarrow> int \<Rightarrow> int \<Rightarrow> Manager \<Rightarrow> Manager" where
  "addVmsByPG p g k m = m\<lparr>vmsByPG := (vmsByPG m)(p := (vmsByPG m p)(g := vmsByPG m p g + k))\<rparr>"

text \<open>
  The VM is named by its key \<open>i\<close> in the registry; callers hold pointers to registry
  entries only, so the first case is not reached. \<^verbatim>\<open>pg->index\<close> is the key of the
  group: \<^verbatim>\<open>createPG\<close> stores every group under its own index. The source reads
  \<^verbatim>\<open>nodes[0]\<close> without a check; callers that can pass an empty vector are guarded
  where they call.
\<close>

definition place :: "int \<Rightarrow> nodeId list \<Rightarrow> Manager \<Rightarrow> Manager" where
  "place i placement m =
     (case vmsByIndex m i of
        None \<Rightarrow> m
      | Some vm \<Rightarrow>
          (let m1 = m\<lparr>vmsByIndex := (vmsByIndex m)(i \<mapsto> vm\<lparr>vm_nodes := placement\<rparr>)\<rparr>;
               m2 = fold (claimNode (vm_type vm)) placement m1
           in case placement of
                [] \<Rightarrow> m2
              | n # _ \<Rightarrow> addVmsByPG (pmOf n) (vm_pg vm) 1 m2))"

definition unplace :: "int \<Rightarrow> Manager \<Rightarrow> Manager" where
  "unplace i m =
     (case vmsByIndex m i of
        None \<Rightarrow> m
      | Some vm \<Rightarrow>
          (let m1 = fold (releaseNode (vm_type vm)) (vm_nodes vm) m;
               m2 = (case vm_nodes vm of
                       [] \<Rightarrow> m1
                     | n # _ \<Rightarrow> addVmsByPG (pmOf n) (vm_pg vm) (- 1) m1)
           in m2\<lparr>vmsByIndex := (vmsByIndex m2)(i \<mapsto> vm\<lparr>vm_nodes := []\<rparr>)\<rparr>))"

definition placed :: "Manager \<Rightarrow> int \<Rightarrow> bool" where
  "placed m i = (case vmsByIndex m i of None \<Rightarrow> False | Some vm \<Rightarrow> isPlaced vm)"

definition unplaceVMs :: "int list \<Rightarrow> Manager \<Rightarrow> Manager" where
  "unplaceVMs ids m = fold (\<lambda>i m. if placed m i then unplace i m else m) ids m"

subsection \<open>Derived state of a placement group (\<^verbatim>\<open>PG::updateTargets\<close>)\<close>

text \<open>\<^verbatim>\<open>partitionRacks[p].insert(rack)\<close> on the table of rack sets, kept in insertion
  order.\<close>

fun prInsert :: "int \<Rightarrow> rackId \<Rightarrow> (int \<times> rackId list) list \<Rightarrow> (int \<times> rackId list) list" where
  "prInsert p r [] = [(p, [r])]"
| "prInsert p r ((q, rs) # rest) =
     (if q = p then (q, if r \<in> set rs then rs else rs @ [r]) # rest
      else (q, rs) # prInsert p r rest)"

definition updateTargetsStep :: "Manager \<Rightarrow> int \<Rightarrow> PG \<Rightarrow> PG" where
  "updateTargetsStep m i pg =
     (case vmsByIndex m i of
        None \<Rightarrow> pg
      | Some vm \<Rightarrow>
          (case vm_nodes vm of
             [] \<Rightarrow> pg
           | n # _ \<Rightarrow>
               (let rack = rackOf (pmOf n);
                    domain = domainOf rack;
                    pg1 = (if domainAffinity pg \<noteq> NONE \<and> domainAffinityPossible pg
                           then (case targetDomain pg of
                                   None \<Rightarrow> pg\<lparr>targetDomain := Some domain\<rparr>
                                 | Some d \<Rightarrow>
                                     if d \<noteq> domain then pg\<lparr>domainAffinityPossible := False\<rparr>
                                     else pg)
                           else pg);
                    pg2 = (if rackAffinity pg1 \<noteq> NONE \<and> rackAffinityPossible pg1
                           then (case targetRack pg1 of
                                   None \<Rightarrow> pg1\<lparr>targetRack := Some rack\<rparr>
                                 | Some r \<Rightarrow>
                                     if r \<noteq> rack then pg1\<lparr>rackAffinityPossible := False\<rparr>
                                     else pg1)
                           else pg1)
                in if hardRackAntiAffinityPartitions pg2 > 0
                   then pg2\<lparr>partitionRacks := prInsert (partition vm) rack (partitionRacks pg2)\<rparr>
                   else pg2)))"

definition updateTargetsPG :: "Manager \<Rightarrow> PG \<Rightarrow> PG" where
  "updateTargetsPG m pg =
     (let pg0 = pg\<lparr>targetDomain := None, domainAffinityPossible := True,
                   targetRack := None, rackAffinityPossible := True,
                   partitionRacks := []\<rparr>;
          pg1 = fold (updateTargetsStep m) (vms pg0) pg0
      in if (domainAffinity pg1 = SOFT \<and> \<not> domainAffinityPossible pg1)
            \<or> (rackAffinity pg1 = SOFT \<and> \<not> rackAffinityPossible pg1)
         then pg1\<lparr>domainAffinityPossible := False, rackAffinityPossible := False,
                  softPMAntiAffinityPossible := False\<rparr>
         else pg1\<lparr>softPMAntiAffinityPossible := softPMAntiAffinity pg1 > 0\<rparr>)"

text \<open>The group is named by its key \<open>g\<close>; callers hold a reference to a registry
  entry.\<close>

definition updateTargets :: "int \<Rightarrow> Manager \<Rightarrow> Manager" where
  "updateTargets g m =
     (case pgsByIndex m g of
        None \<Rightarrow> m
      | Some pg \<Rightarrow> m\<lparr>pgsByIndex := (pgsByIndex m)(g \<mapsto> updateTargetsPG m pg)\<rparr>)"

subsection \<open>Sorting\<close>

text \<open>
  \<^verbatim>\<open>std::sort\<close> leaves the order of equivalent elements open. The model sorts
  stably (\<^const>\<open>sort_key\<close> is insertion sort), which is what the insertion sort of the
  standard library does on the short ranges of this program. The comparator
  \<^verbatim>\<open>fitA == fitB ? loadA < loadB : fitA > fitB\<close> is the lexicographic order on
  the key (\<open>- fit\<close>, \<open>load\<close>).

  A comparator that calls \<^verbatim>\<open>getTypeFit\<close> fills the cache of every element it is
  called on: every element of a range of two or more, none of a shorter range. The value
  \<^verbatim>\<open>getTypeFit\<close> returns for an element does not change while the range is sorted
  (the fills of the other elements touch other subtrees), so the keys are read in the state
  before the sort.
\<close>

definition sortByLoad :: "Manager \<Rightarrow> rackId list \<Rightarrow> rackId list" where
  "sortByLoad m rs = sort_key (loadOf m) rs"

definition firstLoad :: "Manager \<Rightarrow> rackId list \<Rightarrow> rat" where
  \<comment> \<open>\<^verbatim>\<open>a[0]->getLoad()\<close>; the groups of a fleet with at least one rack per domain are
     not empty\<close>
  "firstLoad m g = (case g of [] \<Rightarrow> 0 | r # _ \<Rightarrow> loadOf m r)"

definition sortGroups :: "Manager \<Rightarrow> rackId list list \<Rightarrow> rackId list list" where
  "sortGroups m gs = sort_key (firstLoad m) gs"

definition sortRacksByFit :: "Type \<Rightarrow> rackId list \<Rightarrow> Manager \<Rightarrow> rackId list \<times> Manager" where
  "sortRacksByFit ty racks m =
     (if length racks < 2 then (racks, m)
      else (sort_key (\<lambda>r. (- fst (getTypeFitRack ty r m), loadOf m r)) racks,
            snd (fitList (getTypeFitRack ty) racks m)))"

definition sortNodesByFit :: "Type \<Rightarrow> nodeId list \<Rightarrow> Manager \<Rightarrow> nodeId list \<times> Manager" where
  "sortNodesByFit ty ns m =
     (if length ns < 2 then (ns, m)
      else (sort_key (\<lambda>n. - fst (getTypeFitNode ty n m)) ns,
            snd (fitList (getTypeFitNode ty) ns m)))"

subsection \<open>Greedy placement of one batch on a rack list (\<^verbatim>\<open>tryPlaceInner\<close>,
  \<^verbatim>\<open>tryPlace\<close>)\<close>

text \<open>The loop over the sorted nodes of a PM: the first \<^verbatim>\<open>type.nodes\<close> nodes with
  room for one slice.\<close>

fun pickNodes :: "Manager \<Rightarrow> Type \<Rightarrow> nodeId list \<Rightarrow> nodeId list \<Rightarrow> nodeId list" where
  "pickNodes m ty [] vmNodes = vmNodes"
| "pickNodes m ty (n # ns) vmNodes =
     (if \<not> hasResources (store m (AtNode n)) (t_cpu ty) (t_memory ty)
      then pickNodes m ty ns vmNodes
      else if int (length (vmNodes @ [n])) = t_nodes ty then vmNodes @ [n]
      else pickNodes m ty ns (vmNodes @ [n]))"

text \<open>The loop over the PMs of a rack, for the VM \<open>i\<close>; it ends at the first PM that
  takes the VM.\<close>

fun tryPMs :: "PG \<Rightarrow> int \<Rightarrow> Type \<Rightarrow> bool \<Rightarrow> pmId list \<Rightarrow> (int \<times> nodeId list) list \<Rightarrow> Manager
    \<Rightarrow> (int \<times> nodeId list) list \<times> Manager" where
  "tryPMs pg i ty force [] pl m = (pl, m)"
| "tryPMs pg i ty force (p # ps) pl m =
     (if \<not> hasResourcesType (store m (AtPM p)) ty then tryPMs pg i ty force ps pl m
      else if \<not> force \<and> softPMAntiAffinity pg > 0 \<and> softPMAntiAffinityPossible pg
              \<and> vmsByPG m p (pg_index pg) \<ge> softPMAntiAffinity pg
      then tryPMs pg i ty force ps pl m
      else (let (pmNodes, m1) = sortNodesByFit ty (nodesOf m p) m;
                vmNodes = pickNodes m1 ty pmNodes []
            in if int (length vmNodes) \<noteq> t_nodes ty then tryPMs pg i ty force ps pl m1
               else (AList.update i vmNodes pl, place i vmNodes m1)))"

text \<open>The loop over the racks, for the VM \<open>i\<close>; it ends at the first rack on which the VM
  is placed.\<close>

fun tryRacks :: "PG \<Rightarrow> int \<Rightarrow> Type \<Rightarrow> bool \<Rightarrow> rackId list \<Rightarrow> (int \<times> nodeId list) list \<Rightarrow> Manager
    \<Rightarrow> (int \<times> nodeId list) list \<times> Manager" where
  "tryRacks pg i ty force [] pl m = (pl, m)"
| "tryRacks pg i ty force (r # rs) pl m =
     (if \<not> hasResourcesType (store m (AtRack r)) ty then tryRacks pg i ty force rs pl m
      else (let (pl1, m1) = tryPMs pg i ty force (pmsOf m r) pl m
            in if placed m1 i then (pl1, m1) else tryRacks pg i ty force rs pl1 m1))"

text \<open>The loop over the VMs. The rack list is a reference parameter of the source and is
  sorted in place: it is returned.\<close>

fun tryPlaceInner :: "PG \<Rightarrow> int list \<Rightarrow> Type \<Rightarrow> bool \<Rightarrow> rackId list \<Rightarrow> (int \<times> nodeId list) list
    \<Rightarrow> Manager \<Rightarrow> rackId list \<times> (int \<times> nodeId list) list \<times> Manager" where
  "tryPlaceInner pg [] ty force racks pl m = (racks, pl, m)"
| "tryPlaceInner pg (i # rest) ty force racks pl m =
     (if placed m i then tryPlaceInner pg rest ty force racks pl m
      else (let (racks1, m1) = sortRacksByFit ty racks m;
                (pl1, m2) = tryRacks pg i ty force racks1 pl m1
            in tryPlaceInner pg rest ty force racks1 pl1 m2))"

text \<open>The number of VMs of the batch whose home PM holds more VMs of the group than
  \<^verbatim>\<open>softPMAntiAffinity\<close>.\<close>

definition overPM :: "Manager \<Rightarrow> PG \<Rightarrow> int \<Rightarrow> bool" where
  "overPM m pg i =
     (case vmsByIndex m i of
        None \<Rightarrow> False
      | Some vm \<Rightarrow>
          (case vm_nodes vm of
             [] \<Rightarrow> False
           | n # _ \<Rightarrow> vmsByPG m (pmOf n) (pg_index pg) > softPMAntiAffinity pg))"

definition tryPlacePenalty :: "Manager \<Rightarrow> PG \<Rightarrow> int list \<Rightarrow> int" where
  "tryPlacePenalty m pg vmsToPlace =
     (if softPMAntiAffinity pg > 0 \<and> softPMAntiAffinityPossible pg
      then int (length (filter (overPM m pg) vmsToPlace)) else 0)
     + (if domainAffinity pg = SOFT \<and> \<not> domainAffinityPossible pg then 1000 else 0)
     + (if rackAffinity pg = SOFT \<and> \<not> rackAffinityPossible pg then 1000 else 0)"

text \<open>A comparison between a \<^verbatim>\<open>size_t\<close> and an \<^verbatim>\<open>int\<close> is made on
  \<^verbatim>\<open>size_t\<close>, 64 bits without sign: both sides are taken modulo \<open>2 ^ 64\<close>.\<close>

definition u64 :: "int \<Rightarrow> int" where
  "u64 x = x mod 2 ^ 64"

definition tryPlace :: "int \<Rightarrow> int list \<Rightarrow> Type \<Rightarrow> rackId list \<Rightarrow> bool \<Rightarrow> Manager
    \<Rightarrow> Placement option \<times> rackId list \<times> Manager" where
  "tryPlace g vmsToPlace ty racks force m =
     (let m0 = unplaceVMs vmsToPlace m;
          availCPU = sum_list (map (\<lambda>r. availableCPU (store m0 (AtRack r))) racks);
          availMemory = sum_list (map (\<lambda>r. availableMemory (store m0 (AtRack r))) racks)
      in if u64 (int (length vmsToPlace) * t_nodes ty * t_cpu ty) > u64 availCPU
            \<or> u64 (int (length vmsToPlace) * t_nodes ty * t_memory ty) > u64 availMemory
         then (None, racks, m0)
         else (case pgsByIndex m0 g of
                 None \<Rightarrow> (None, racks, m0)
               | Some pg \<Rightarrow>
                   (let (racks1, pl1, m1) = tryPlaceInner pg vmsToPlace ty False racks [] m0;
                        (racks2, pl2, m2) =
                          (if force \<and> length pl1 < length vmsToPlace
                           then tryPlaceInner pg vmsToPlace ty True racks1 pl1 m1
                           else (racks1, pl1, m1))
                    in if length pl2 < length vmsToPlace then (None, racks2, m2)
                       else (let m3 = updateTargets g m2
                             in (case pgsByIndex m3 g of
                                   None \<Rightarrow> (None, racks2, m3)
                                 | Some pg3 \<Rightarrow>
                                     (Some \<lparr>placements = pl2,
                                            penalty = of_int (tryPlacePenalty m3 pg3 vmsToPlace)\<rparr>,
                                      racks2, m3))))))"

subsection \<open>One rack group (\<^verbatim>\<open>getBestPlacement\<close>)\<close>

text \<open>
  The order in which an \<^verbatim>\<open>unordered_map\<close> or \<^verbatim>\<open>unordered_set\<close> is walked is
  not fixed by the language (for a set of pointers it depends on the addresses). It is a
  parameter of the model: a function from the keys, in insertion order, to the order of the
  walk. Whatever the function, the walk visits every key once.
\<close>

record HashOrder =
  partitionOrder :: "int list \<Rightarrow> int list"
  rackSetOrder :: "rackId list \<Rightarrow> rackId list"

definition iterOrder :: "('a list \<Rightarrow> 'a list) \<Rightarrow> 'a list \<Rightarrow> 'a list" where
  "iterOrder f xs = (let ys = f xs in if distinct ys \<and> set ys = set xs then ys else xs)"

definition partitionOfVM :: "Manager \<Rightarrow> int \<Rightarrow> int" where
  "partitionOfVM m i = (case vmsByIndex m i of None \<Rightarrow> 0 | Some vm \<Rightarrow> partition vm)"

definition vmsByPartition :: "HashOrder \<Rightarrow> Manager \<Rightarrow> int list \<Rightarrow> (int \<times> int list) list" where
  "vmsByPartition ho m vmsToPlace =
     map (\<lambda>p. (p, filter (\<lambda>i. partitionOfVM m i = p) vmsToPlace))
       (iterOrder (partitionOrder ho) (remdups (map (partitionOfVM m) vmsToPlace)))"

text \<open>\<^verbatim>\<open>startRacks\<close> and \<^verbatim>\<open>extraRacks\<close> of a partition; \<open>None\<close> is the
  \<^verbatim>\<open>return {}\<close> of the source when no rack is allowed. The groups of a fleet with a
  rack in every domain are not empty, so \<^verbatim>\<open>sortedRacks[0]\<close> exists.\<close>

definition invalidRacksOf :: "PG \<Rightarrow> int \<Rightarrow> rackId list" where
  "invalidRacksOf pg part = concat (map snd (filter (\<lambda>pr. fst pr \<noteq> part) (partitionRacks pg)))"

definition ownRacksOf :: "HashOrder \<Rightarrow> PG \<Rightarrow> int \<Rightarrow> rackId list" where
  "ownRacksOf ho pg part =
     iterOrder (rackSetOrder ho)
       (case map_of (partitionRacks pg) part of None \<Rightarrow> [] | Some rs \<Rightarrow> rs)"

definition startAndExtra :: "HashOrder \<Rightarrow> PG \<Rightarrow> Manager \<Rightarrow> rackId list \<Rightarrow> int
    \<Rightarrow> (rackId list \<times> rackId list) option" where
  "startAndExtra ho pg m racks part =
     (let sortedRacks = sortByLoad m racks
      in if part > 0
         then (let invalidRacks = invalidRacksOf pg part;
                   startRacks = filter (\<lambda>r. r \<notin> set invalidRacks) (ownRacksOf ho pg part);
                   extraRacks = filter (\<lambda>r. r \<notin> set invalidRacks \<and> r \<notin> set startRacks) racks
               in if startRacks = []
                  then (case extraRacks of [] \<Rightarrow> None | e # es \<Rightarrow> Some ([e], es))
                  else Some (startRacks, extraRacks))
         else if rackAffinity pg = SOFT \<and> rackAffinityPossible pg
         then (if targetRack pg \<noteq> None \<and> the (targetRack pg) \<in> set racks
               then Some ([the (targetRack pg)], removeAll (the (targetRack pg)) sortedRacks)
               else Some (take 1 sortedRacks, drop 1 sortedRacks))
         else Some (sortedRacks, []))"

text \<open>The \<^verbatim>\<open>while (true)\<close> loop: try the current rack list, and on failure add the
  next extra rack; it ends when a try succeeds or no extra rack is left.\<close>

fun expand :: "int \<Rightarrow> int list \<Rightarrow> Type \<Rightarrow> bool \<Rightarrow> rackId list \<Rightarrow> rackId list \<Rightarrow> Manager
    \<Rightarrow> Placement option \<times> Manager" where
  "expand g vs ty force cur [] m =
     (case tryPlace g vs ty cur force m of (res, cur1, m1) \<Rightarrow> (res, m1))"
| "expand g vs ty force cur (e # es) m =
     (case tryPlace g vs ty cur force m of
        (Some p, cur1, m1) \<Rightarrow> (Some p, m1)
      | (None, cur1, m1) \<Rightarrow> expand g vs ty force (cur1 @ [e]) es m1)"

text \<open>The body of the loop over the partitions of the batch; \<open>None\<close> is
  \<^verbatim>\<open>return {}\<close>.\<close>

definition placePartition :: "HashOrder \<Rightarrow> int \<Rightarrow> Type \<Rightarrow> rackId list \<Rightarrow> int \<times> int list \<Rightarrow> Manager
    \<Rightarrow> Placement option \<times> Manager" where
  "placePartition ho g ty racks pv m =
     (let m1 = updateTargets g (unplaceVMs (snd pv) m)
      in case pgsByIndex m1 g of
           None \<Rightarrow> (None, m1)
         | Some pg \<Rightarrow>
             (case startAndExtra ho pg m1 racks (fst pv) of
                None \<Rightarrow> (None, m1)
              | Some (startRacks, extraRacks) \<Rightarrow>
                  (case expand g (snd pv) ty False startRacks extraRacks m1 of
                     (Some p, m2) \<Rightarrow> (Some p, m2)
                   | (None, m2) \<Rightarrow> expand g (snd pv) ty True startRacks extraRacks m2)))"

text \<open>\<^verbatim>\<open>unordered_map::insert\<close> of a range: a key already present keeps its value.\<close>

fun insertAll :: "(int \<times> nodeId list) list \<Rightarrow> (int \<times> nodeId list) list \<Rightarrow> (int \<times> nodeId list) list" where
  "insertAll [] acc = acc"
| "insertAll ((k, v) # kvs) acc =
     insertAll kvs (if k \<in> fst ` set acc then acc else acc @ [(k, v)])"

fun partitionLoop :: "HashOrder \<Rightarrow> int \<Rightarrow> Type \<Rightarrow> rackId list \<Rightarrow> (int \<times> int list) list \<Rightarrow> Placement
    \<Rightarrow> Manager \<Rightarrow> Placement option \<times> Manager" where
  "partitionLoop ho g ty racks [] acc m = (Some acc, m)"
| "partitionLoop ho g ty racks (pv # rest) acc m =
     (case placePartition ho g ty racks pv m of
        (None, m1) \<Rightarrow> (None, m1)
      | (Some p, m1) \<Rightarrow>
          partitionLoop ho g ty racks rest
            \<lparr>placements = insertAll (placements p) (placements acc),
             penalty = penalty acc + penalty p\<rparr> m1)"

definition averageLoad :: "Manager \<Rightarrow> rackId list \<Rightarrow> rat" where
  "averageLoad m racks = sum_list (map (loadOf m) racks) / of_nat (length racks)"

definition getBestPlacement :: "HashOrder \<Rightarrow> int \<Rightarrow> int list \<Rightarrow> Type \<Rightarrow> rackId list \<Rightarrow> Manager
    \<Rightarrow> Placement option \<times> Manager" where
  "getBestPlacement ho g vmsToPlace ty racks m =
     (case partitionLoop ho g ty racks (vmsByPartition ho m vmsToPlace)
             \<lparr>placements = [], penalty = 0\<rparr> m of
        (None, m1) \<Rightarrow> (None, m1)
      | (Some acc, m1) \<Rightarrow> (Some (acc\<lparr>penalty := penalty acc + averageLoad m1 racks\<rparr>), m1))"

subsection \<open>Rack groups (\<^verbatim>\<open>getRackGroups\<close>, \<^verbatim>\<open>getRackGroups2\<close>)\<close>

definition rackGroups1 :: "Manager \<Rightarrow> PG \<Rightarrow> rackId list list" where
  "rackGroups1 m pg =
     (if rackAffinity pg = HARD
      then (case targetRack pg of
              Some t \<Rightarrow> [[t]]
            | None \<Rightarrow> map (\<lambda>r. [r]) (allRacks m))
      else if domainAffinity pg = HARD
      then (case targetDomain pg of
              Some d \<Rightarrow> [racksOf m d]
            | None \<Rightarrow> map (racksOf m) (domainsOf m))
      else (if rackAffinity pg = SOFT \<and> rackAffinityPossible pg
            then (case targetRack pg of
                    Some t \<Rightarrow> [[t]]
                  | None \<Rightarrow> map (\<lambda>r. [r]) (allRacks m))
            else [])
           @ (if domainAffinity pg = SOFT \<and> domainAffinityPossible pg
              then (case targetDomain pg of
                      Some d \<Rightarrow> [racksOf m d]
                    | None \<Rightarrow> map (racksOf m) (domainsOf m))
              else map (racksOf m) (domainsOf m))
           @ [allRacks m])"

definition getRackGroups :: "int \<Rightarrow> Manager \<Rightarrow> rackId list list \<times> Manager" where
  "getRackGroups g m =
     (let m1 = updateTargets g m
      in case pgsByIndex m1 g of
           None \<Rightarrow> ([], m1)
         | Some pg \<Rightarrow> (rackGroups1 m1 pg, m1))"

text \<open>The singleton groups of the racks with a type fit other than 0, all racks asked in
  order.\<close>

definition fittingRacks :: "Type \<Rightarrow> Manager \<Rightarrow> rackId list list \<times> Manager" where
  "fittingRacks ty m =
     (let (fits, m1) = fitList (getTypeFitRack ty) (allRacks m) m
      in (map (\<lambda>rf. [fst rf]) (filter (\<lambda>rf. snd rf \<noteq> 0) (zip (allRacks m) fits)), m1))"

text \<open>One group per domain whose racks together fit the batch, each sorted by load.\<close>

fun fittingDomains :: "Type \<Rightarrow> nat \<Rightarrow> domId list \<Rightarrow> Manager \<Rightarrow> rackId list list \<times> Manager" where
  "fittingDomains ty n [] m = ([], m)"
| "fittingDomains ty n (d # ds) m =
     (let (fits, m1) = fitList (getTypeFitRack ty) (racksOf m d) m;
          (gs, m2) = fittingDomains ty n ds m1
      in if u64 (sum_list fits) < u64 (int n) then (gs, m2)
         else (sortByLoad m1 (racksOf m1 d) # gs, m2))"

definition otherDomains :: "Manager \<Rightarrow> domId option \<Rightarrow> rackId list list" where
  "otherDomains m target =
     map (\<lambda>d. sortByLoad m (racksOf m d)) (filter (\<lambda>d. Some d \<noteq> target) (domainsOf m))"

text \<open>The branches of \<^verbatim>\<open>getRackGroups2\<close> after \<open>groups\<close> has received the result of
  \<^verbatim>\<open>getRackGroups\<close>; \<open>n\<close> is the size of the batch.\<close>

definition rackGroups2 :: "PG \<Rightarrow> Type \<Rightarrow> nat \<Rightarrow> rackId list list \<Rightarrow> Manager
    \<Rightarrow> rackId list list \<times> Manager" where
  "rackGroups2 pg ty n groups m =
     (if rackAffinity pg = HARD
      then (case targetRack pg of
              Some t \<Rightarrow> (groups @ [[t]], m)
            | None \<Rightarrow>
                (let (gs, m1) = fittingRacks ty m in (sortGroups m1 (groups @ gs), m1)))
      else if domainAffinity pg = HARD
              \<and> (rackAffinity pg = NONE \<or> \<not> rackAffinityPossible pg)
      then (case targetDomain pg of
              Some d \<Rightarrow> (groups @ [sortByLoad m (racksOf m d)], m)
            | None \<Rightarrow>
                (let (gs, m1) = fittingDomains ty n (domainsOf m) m
                 in (sortGroups m1 (groups @ gs), m1)))
      else if domainAffinity pg = HARD \<and> rackAffinity pg = SOFT \<and> rackAffinityPossible pg
      then (let (groups1, sortStart) =
                  (case targetRack pg of
                     Some t \<Rightarrow> (groups @ [[t]], 1)
                   | None \<Rightarrow> (groups, 0::nat));
                (groups2, m1) =
                  (case targetDomain pg of
                     Some d \<Rightarrow> (groups1 @ [sortByLoad m (racksOf m d)], m)
                   | None \<Rightarrow>
                       (let (gs, m1) = fittingDomains ty n (domainsOf m) m
                        in (groups1 @ gs, m1)))
            in (take sortStart groups2 @ sortGroups m1 (drop sortStart groups2), m1))
      else if domainAffinity pg = SOFT \<and> domainAffinityPossible pg
              \<and> rackAffinity pg = SOFT \<and> rackAffinityPossible pg
      then (let (groups1, sortStart1) =
                  (case targetRack pg of
                     Some t \<Rightarrow> (groups @ [[t]], 1)
                   | None \<Rightarrow> (groups, 0::nat));
                (groups2, sortStart) =
                  (case targetDomain pg of
                     Some d \<Rightarrow> (groups1 @ [sortByLoad m (racksOf m d)], Suc sortStart1)
                   | None \<Rightarrow> (groups1, sortStart1));
                groups3 = groups2 @ otherDomains m (targetDomain pg)
            in (take sortStart groups3 @ sortGroups m (drop sortStart groups3)
                  @ [sortByLoad m (allRacks m)], m))
      else if domainAffinity pg = SOFT \<and> domainAffinityPossible pg
              \<and> (rackAffinity pg = NONE \<or> \<not> rackAffinityPossible pg)
      then (let (groups2, sortStart) =
                  (case targetDomain pg of
                     Some d \<Rightarrow> (groups @ [sortByLoad m (racksOf m d)], 1)
                   | None \<Rightarrow> (groups, 0::nat));
                groups3 = groups2 @ otherDomains m (targetDomain pg)
            in (take sortStart groups3 @ sortGroups m (drop sortStart groups3)
                  @ [sortByLoad m (allRacks m)], m))
      else if (domainAffinity pg = NONE \<or> \<not> domainAffinityPossible pg)
              \<or> (rackAffinity pg = NONE \<or> \<not> rackAffinityPossible pg)
      then (groups @ [sortByLoad m (allRacks m)], m)
      else (groups, m))"

text \<open>\<^verbatim>\<open>getRackGroups2\<close>: the group and the type are read through the first VM of the
  batch, \<^verbatim>\<open>vmsToPlace[0]\<close>; the caller checks that the batch is not empty.\<close>

definition getRackGroups2 :: "int list \<Rightarrow> Manager \<Rightarrow> rackId list list \<times> Manager" where
  "getRackGroups2 vmsToPlace m =
     (case vmsToPlace of
        [] \<Rightarrow> ([], m)
      | i # _ \<Rightarrow>
          (case vmsByIndex m i of
             None \<Rightarrow> ([], m)
           | Some vm \<Rightarrow>
               (let m1 = updateTargets (vm_pg vm) m;
                    (groups, m2) = getRackGroups (vm_pg vm) m1
                in case pgsByIndex m2 (vm_pg vm) of
                     None \<Rightarrow> (groups, m2)
                   | Some pg \<Rightarrow> rackGroups2 pg (vm_type vm) (length vmsToPlace) groups m2)))"

subsection \<open>Requests (\<^verbatim>\<open>createPG\<close>, \<^verbatim>\<open>createVMs\<close>, \<^verbatim>\<open>deleteVMs\<close>)\<close>

definition createPG :: "int \<Rightarrow> int \<Rightarrow> int \<Rightarrow> Affinity \<Rightarrow> Affinity \<Rightarrow> Manager \<Rightarrow> Manager" where
  "createPG idx hardParts softPM domA rackA m =
     (case pgsByIndex m idx of
        Some _ \<Rightarrow> m
      | None \<Rightarrow>
          m\<lparr>pgsByIndex := (pgsByIndex m)(idx \<mapsto>
              \<lparr>pg_index = idx,
               hardRackAntiAffinityPartitions = (if hardParts \<le> 1 then 0 else hardParts),
               softPMAntiAffinity = softPM,
               domainAffinity = domA,
               rackAffinity = rackA,
               vms = [],
               targetDomain = None,
               domainAffinityPossible = True,
               targetRack = None,
               rackAffinityPossible = True,
               softPMAntiAffinityPossible = True,
               partitionRacks = []\<rparr>)\<rparr>)"

text \<open>What stops the program other than by its own \<^verbatim>\<open>return\<close>: the exception of
  \<^verbatim>\<open>at()\<close> on a missing key or index, and a read of element 0 of an empty
  vector.\<close>

datatype error = OutOfRange | EmptyVector

text \<open>The first loop of \<^verbatim>\<open>createVMs\<close>: \<^verbatim>\<open>emplace\<close> keeps an entry that
  exists; \<open>k\<close> counts the VMs from 0.\<close>

fun registerVMs :: "Type \<Rightarrow> int \<Rightarrow> int \<Rightarrow> nat \<Rightarrow> int list \<Rightarrow> Manager \<Rightarrow> Manager" where
  "registerVMs ty g part k [] m = m"
| "registerVMs ty g part k (i # rest) m =
     (let m1 = (case vmsByIndex m i of
                  Some _ \<Rightarrow> m
                | None \<Rightarrow>
                    m\<lparr>vmsByIndex := (vmsByIndex m)(i \<mapsto>
                        \<lparr>vm_index = i, vm_type = ty, vm_pg = g,
                         partition = (if part \<ge> 0 then part else int k + 1),
                         vm_nodes = []\<rparr>)\<rparr>);
          m2 = (case pgsByIndex m1 g of
                  None \<Rightarrow> m1
                | Some pg \<Rightarrow> m1\<lparr>pgsByIndex := (pgsByIndex m1)(g \<mapsto> pg\<lparr>vms := vms pg @ [i]\<rparr>)\<rparr>)
      in registerVMs ty g part (Suc k) rest m2)"

text \<open>The loop over the rack groups: the first plan of the least penalty is kept.\<close>

fun groupsLoop :: "HashOrder \<Rightarrow> int \<Rightarrow> int list \<Rightarrow> Type \<Rightarrow> rackId list list \<Rightarrow> Placement option
    \<Rightarrow> Manager \<Rightarrow> Placement option \<times> Manager" where
  "groupsLoop ho g vmsToPlace ty [] best m = (best, m)"
| "groupsLoop ho g vmsToPlace ty (racks # rest) best m =
     (case getBestPlacement ho g vmsToPlace ty racks m of
        (None, m1) \<Rightarrow> groupsLoop ho g vmsToPlace ty rest best m1
      | (Some p, m1) \<Rightarrow>
          groupsLoop ho g vmsToPlace ty rest
            (case best of
               None \<Rightarrow> Some p
             | Some b \<Rightarrow> if penalty p < penalty b then Some p else Some b) m1)"

text \<open>The output is a list of lines, a line a list of integers.\<close>

definition outputLine :: "nodeId list \<Rightarrow> int list" where
  "outputLine ns =
     (case ns of
        [] \<Rightarrow> []
      | n # _ \<Rightarrow>
          [int (domainOf (rackOf (pmOf n))), int (snd (rackOf (pmOf n))),
           int (snd (snd (pmOf n)))] @ map (\<lambda>k. int (snd (snd (snd k)))) ns)"

text \<open>The last loop of \<^verbatim>\<open>createVMs\<close>: \<^verbatim>\<open>placements[vm->index]\<close> gives an empty
  vector for a missing key, and \<^verbatim>\<open>nodes[0]\<close> is then read.\<close>

fun commit :: "(int \<times> nodeId list) list \<Rightarrow> int list \<Rightarrow> int list list \<Rightarrow> Manager
    \<Rightarrow> error + (int list list \<times> Manager)" where
  "commit plan [] out m = Inr (out, m)"
| "commit plan (i # rest) out m =
     (case (case map_of plan i of None \<Rightarrow> [] | Some ns \<Rightarrow> ns) of
        [] \<Rightarrow> Inl EmptyVector
      | n # ns \<Rightarrow> commit plan rest (out @ [outputLine (n # ns)]) (place i (n # ns) m))"

text \<open>\<open>elapsed\<close> is what the clock gives at the entry of the call: the whole seconds since
  the Manager was built. The result is the returned flag, the lines written and the new
  state.\<close>

definition createVMs :: "HashOrder \<Rightarrow> int \<Rightarrow> int list \<Rightarrow> int \<Rightarrow> int \<Rightarrow> int \<Rightarrow> Manager
    \<Rightarrow> error + (bool \<times> int list list \<times> Manager)" where
  "createVMs ho elapsed indices typeIndex pgIndex part m =
     (if elapsed \<ge> 14 then Inr (False, [[- 1]], m)
      else if typeIndex < 1 \<or> typeIndex > int (length (types m)) then Inl OutOfRange
      else (case pgsByIndex m pgIndex of
              None \<Rightarrow> Inl OutOfRange
            | Some pg \<Rightarrow>
                (let ty = types m ! nat (typeIndex - 1);
                     part1 = (if hardRackAntiAffinityPartitions pg = 0 then 0 else part);
                     m1 = registerVMs ty pgIndex part1 0 indices m
                 in if indices = [] then Inl EmptyVector
                    else (let (groups, m2) = getRackGroups2 indices m1;
                              (best, m3) = groupsLoop ho pgIndex indices ty groups None m2;
                              m4 = unplaceVMs indices m3
                          in case best of
                               None \<Rightarrow> Inr (False, [[- 1]], m4)
                             | Some b \<Rightarrow>
                                 (case commit (placements b) indices [] m4 of
                                    Inl e \<Rightarrow> Inl e
                                  | Inr (out, m5) \<Rightarrow>
                                      Inr (True, out, updateTargets pgIndex m5))))))"

fun deleteVMs :: "int list \<Rightarrow> Manager \<Rightarrow> error + Manager" where
  "deleteVMs [] m = Inr m"
| "deleteVMs (i # rest) m =
     (case vmsByIndex m i of
        None \<Rightarrow> Inl OutOfRange
      | Some vm \<Rightarrow>
          if vm_nodes vm = [] then Inl EmptyVector
          else (let m1 = unplace i m;
                    m2 = (case pgsByIndex m1 (vm_pg vm) of
                            None \<Rightarrow> m1
                          | Some pg \<Rightarrow>
                              m1\<lparr>pgsByIndex := (pgsByIndex m1)
                                   (vm_pg vm \<mapsto> pg\<lparr>vms := removeAll i (vms pg)\<rparr>)\<rparr>)
                in deleteVMs rest (m2\<lparr>vmsByIndex := (vmsByIndex m2)(i := None)\<rparr>)))"

subsection \<open>The session (\<^verbatim>\<open>main\<close>)\<close>

datatype request =
    CreatePG int int int Affinity Affinity
  | CreateVMs int int int "int list"
  | DeleteVMs "int list"
  | Terminate

text \<open>
  A request is read together with the clock value that \<^verbatim>\<open>createVMs\<close> would see on
  entry (only a type-2 request looks at it). The session ends by \<open>Exited\<close> (a type-4
  request, or a \<open>-1\<close>), by \<open>Crashed\<close> (an exception or a read outside a vector), or is
  still \<open>Waiting\<close> for input when the requests given are used up.
\<close>

datatype result =
    Exited "int list list"
  | Crashed error "int list list"
  | Waiting "int list list" Manager

fun run :: "HashOrder \<Rightarrow> (int \<times> request) list \<Rightarrow> int list list \<Rightarrow> Manager \<Rightarrow> result" where
  "run ho [] out m = Waiting out m"
| "run ho ((elapsed, CreatePG idx hardParts softPM domA rackA) # rest) out m =
     run ho rest out (createPG idx hardParts softPM domA rackA m)"
| "run ho ((elapsed, CreateVMs typeIndex pgIndex part indices) # rest) out m =
     (case createVMs ho elapsed indices typeIndex pgIndex part m of
        Inl e \<Rightarrow> Crashed e out
      | Inr (ok, lines, m1) \<Rightarrow>
          if ok then run ho rest (out @ lines) m1 else Exited (out @ lines))"
| "run ho ((elapsed, DeleteVMs indices) # rest) out m =
     (case deleteVMs indices m of
        Inl e \<Rightarrow> Crashed e out
      | Inr m1 \<Rightarrow> run ho rest out m1)"
| "run ho ((elapsed, Terminate) # rest) out m = Exited out"

text \<open>The Manager built from the header: every PM has the same nodes, with the capacities
  \<open>nodeCPU\<close> and \<open>nodeMemory\<close>; the types are numbered from 1.\<close>

definition mkRes :: "int \<Rightarrow> int \<Rightarrow> WithResources" where
  "mkRes c mem = \<lparr>totalCPU = c, totalMemory = mem, availableCPU = c, availableMemory = mem,
     typeFits = Map.empty\<rparr>"

definition nthOr0 :: "int list \<Rightarrow> nat \<Rightarrow> int" where
  "nthOr0 xs k = (if k < length xs then xs ! k else 0)"

fun initStore :: "nat \<Rightarrow> nat \<Rightarrow> int list \<Rightarrow> int list \<Rightarrow> obj \<Rightarrow> WithResources" where
  "initStore nr np cs ms (AtNode n) = mkRes (nthOr0 cs (snd (snd (snd n)) - 1)) (nthOr0 ms (snd (snd (snd n)) - 1))"
| "initStore nr np cs ms (AtPM p) = mkRes (sum_list cs) (sum_list ms)"
| "initStore nr np cs ms (AtRack r) = mkRes (int np * sum_list cs) (int np * sum_list ms)"
| "initStore nr np cs ms (AtDomain d) =
     mkRes (int nr * int np * sum_list cs) (int nr * int np * sum_list ms)"

fun mkTypes :: "int \<Rightarrow> (int \<times> int \<times> int) list \<Rightarrow> Type list" where
  "mkTypes k [] = []"
| "mkTypes k ((n, c, mem) # rest) =
     \<lparr>t_index = k, t_nodes = n, t_cpu = c, t_memory = mem\<rparr> # mkTypes (k + 1) rest"

definition initManager :: "nat \<Rightarrow> nat \<Rightarrow> nat \<Rightarrow> int list \<Rightarrow> int list \<Rightarrow> (int \<times> int \<times> int) list
    \<Rightarrow> Manager" where
  "initManager nd nr np nodeCPU nodeMemory typeSpecs =
     \<lparr>noDomains = nd, noRacks = nr, noPMs = np, noNodes = length nodeCPU,
      types = mkTypes 1 typeSpecs,
      store = initStore nr np nodeCPU nodeMemory,
      vmsByPG = (\<lambda>p g. 0),
      pgsByIndex = Map.empty,
      vmsByIndex = Map.empty\<rparr>"

subsection \<open>Observations and concrete sessions\<close>


definition isCreateVMs :: "request \<Rightarrow> bool" where
  "isCreateVMs req = (case req of CreateVMs _ _ _ _ \<Rightarrow> True | _ \<Rightarrow> False)"


text \<open>Hash containers walked in insertion order.\<close>

definition insertionOrder :: HashOrder where
  "insertionOrder = \<lparr>partitionOrder = (\<lambda>xs. xs), rackSetOrder = (\<lambda>xs. xs)\<rparr>"

text \<open>A fleet of one domain, one rack, one PM and one node of 8 CPUs and 8 units of memory,
  with one type of one node, one CPU and one unit of memory.\<close>

definition fleetSingle :: Manager where
  "fleetSingle = initManager 1 1 1 [8] [8] [(1, 1, 1)]"


section \<open>What a step leaves alone\<close>

text \<open>The fields of a group that \<^verbatim>\<open>updateTargets\<close> does not write.\<close>

definition samePGConfig :: "PG \<Rightarrow> PG \<Rightarrow> bool" where
  "samePGConfig pg pg' \<longleftrightarrow>
     pg_index pg' = pg_index pg
     \<and> hardRackAntiAffinityPartitions pg' = hardRackAntiAffinityPartitions pg
     \<and> softPMAntiAffinity pg' = softPMAntiAffinity pg
     \<and> domainAffinity pg' = domainAffinity pg
     \<and> rackAffinity pg' = rackAffinity pg
     \<and> vms pg' = vms pg"

lemma samePGConfig_refl [simp]: "samePGConfig pg pg"
  by (simp add: samePGConfig_def)





lemma updateTargets_frame [simp]:
  "store (updateTargets g m) = store m"
  "vmsByPG (updateTargets g m) = vmsByPG m"
  "vmsByIndex (updateTargets g m) = vmsByIndex m"
  "noDomains (updateTargets g m) = noDomains m"
  "noRacks (updateTargets g m) = noRacks m"
  "noPMs (updateTargets g m) = noPMs m"
  "noNodes (updateTargets g m) = noNodes m"
  "types (updateTargets g m) = types m"
  by (simp_all add: updateTargets_def split: option.splits)


text \<open>The shape of the fleet and the types never change.\<close>

definition sameFleet :: "Manager \<Rightarrow> Manager \<Rightarrow> bool" where
  "sameFleet m m' \<longleftrightarrow>
     noDomains m' = noDomains m \<and> noRacks m' = noRacks m \<and> noPMs m' = noPMs m
     \<and> noNodes m' = noNodes m \<and> types m' = types m"

lemma sameFleet_refl [simp]: "sameFleet m m"
  by (simp add: sameFleet_def)

lemma sameFleet_trans: "sameFleet a b \<Longrightarrow> sameFleet b c \<Longrightarrow> sameFleet a c"
  by (simp add: sameFleet_def)

lemma sameFleet_children:
  assumes "sameFleet m m'"
  shows "domainsOf m' = domainsOf m" "racksOf m' = racksOf m" "pmsOf m' = pmsOf m"
    "nodesOf m' = nodesOf m" "allRacks m' = allRacks m" "types m' = types m"
proof -
  show d: "domainsOf m' = domainsOf m"
    using assms by (simp add: sameFleet_def domainsOf_def)
  show r: "racksOf m' = racksOf m"
    using assms by (intro ext) (simp add: sameFleet_def racksOf_def)
  show "pmsOf m' = pmsOf m"
    using assms by (intro ext) (simp add: sameFleet_def pmsOf_def)
  show "nodesOf m' = nodesOf m"
    using assms by (intro ext) (simp add: sameFleet_def nodesOf_def)
  show "allRacks m' = allRacks m"
    by (simp add: allRacks_def d r)
  show "types m' = types m"
    using assms by (simp add: sameFleet_def)
qed

lemma loadOf_eqI: "store m' = store m \<Longrightarrow> loadOf m' = loadOf m"
  by (rule ext) (simp add: loadOf_def)

lemma sortByLoad_eqI: "store m' = store m \<Longrightarrow> sortByLoad m' = sortByLoad m"
  by (rule ext) (simp add: sortByLoad_def loadOf_eqI [of m' m])

lemma sameFleet_updateTargets [simp]: "sameFleet m (updateTargets g m)"
  by (simp add: sameFleet_def)

lemmas children_updateTargets [simp] =
  sameFleet_children [OF sameFleet_updateTargets]
  loadOf_eqI [OF updateTargets_frame(1)] sortByLoad_eqI [OF updateTargets_frame(1)]


section \<open>Rack groups without affinity\<close>






section \<open>The wall-clock budget\<close>

lemma createVMs_timed_out:
  "14 \<le> elapsed \<Longrightarrow> createVMs ho elapsed indices typeIndex pgIndex part m = Inr (False, [[- 1]], m)"
  by (simp add: createVMs_def)



text \<open>
  C6. The budget is looked at in one place, the entry of \<^verbatim>\<open>createVMs\<close>. When 14
  seconds or more have passed, the call writes the single line \<open>-1\<close> and returns false
  with the whole state (fleet, group registry, VM registry) as it was, and the session
  ends after that line. A request of another kind is handled in the same way whatever the
  clock says.
\<close>

theorem time_gate:
  "(14 \<le> elapsed \<longrightarrow>
      createVMs ho elapsed indices typeIndex pgIndex part m = Inr (False, [[- 1]], m)
      \<and> run ho ((elapsed, CreateVMs typeIndex pgIndex part indices) # rest) out m
          = Exited (out @ [[- 1]]))
   \<and> (\<not> isCreateVMs req \<longrightarrow>
        run ho ((elapsed, req) # rest) out m = run ho ((elapsed', req) # rest) out m)"
  by (cases req) (simp_all add: createVMs_timed_out isCreateVMs_def)

theorem time_gate_witness:
  "createVMs insertionOrder 14 [1] 1 1 0 fleetSingle = Inr (False, [[- 1]], fleetSingle)
   \<and> run insertionOrder [(14, CreateVMs 1 1 0 [1])] [] fleetSingle = Exited [[- 1]]
   \<and> run insertionOrder [(15, DeleteVMs [])] [] fleetSingle
       = run insertionOrder [(0, DeleteVMs [])] [] fleetSingle"
  using time_gate [of 14 insertionOrder "[1]" 1 1 0 fleetSingle "[]" "[]" "DeleteVMs []" 15]
    time_gate [of 15 insertionOrder "[1]" 1 1 0 fleetSingle "[]" "[]" "DeleteVMs []" 0]
  by (simp add: isCreateVMs_def)

section \<open>Determinism\<close>





subsection \<open>Claims and releases\<close>

definition chain :: "nodeId \<Rightarrow> obj set" where
  "chain n = {AtNode n, AtPM (pmOf n), AtRack (rackOf (pmOf n)),
              AtDomain (domainOf (rackOf (pmOf n)))}"

definition hits :: "obj \<Rightarrow> nodeId list \<Rightarrow> int" where
  "hits x ns = int (length (filter (\<lambda>n. x \<in> chain n) ns))"

lemma hits_simps [simp]:
  "hits x [] = 0"
  "hits x (n # ns) = (if x \<in> chain n then 1 else 0) + hits x ns"
  by (simp_all add: hits_def)

lemma hits_nonneg [simp]: "0 \<le> hits x ns"
  by (simp add: hits_def)


lemma claimNode_fields [simp]:
  "vmsByPG (claimNode ty n m) = vmsByPG m"
  "pgsByIndex (claimNode ty n m) = pgsByIndex m"
  "vmsByIndex (claimNode ty n m) = vmsByIndex m"
  "noDomains (claimNode ty n m) = noDomains m"
  "noRacks (claimNode ty n m) = noRacks m"
  "noPMs (claimNode ty n m) = noPMs m"
  "noNodes (claimNode ty n m) = noNodes m"
  "types (claimNode ty n m) = types m"
  by (simp_all add: claimNode_def claimAt_def)

lemma releaseNode_fields [simp]:
  "vmsByPG (releaseNode ty n m) = vmsByPG m"
  "pgsByIndex (releaseNode ty n m) = pgsByIndex m"
  "vmsByIndex (releaseNode ty n m) = vmsByIndex m"
  "noDomains (releaseNode ty n m) = noDomains m"
  "noRacks (releaseNode ty n m) = noRacks m"
  "noPMs (releaseNode ty n m) = noPMs m"
  "noNodes (releaseNode ty n m) = noNodes m"
  "types (releaseNode ty n m) = types m"
  by (simp_all add: releaseNode_def releaseAt_def)

lemma claimNode_store:
  "store (claimNode ty n m) x =
     (if x \<in> chain n then claimResources ty (store m x) else store m x)"
  by (cases n) (auto simp: claimNode_def claimAt_def chain_def)

lemma releaseNode_store:
  "store (releaseNode ty n m) x =
     (if x \<in> chain n then releaseResources ty (store m x) else store m x)"
  by (cases n) (auto simp: releaseNode_def releaseAt_def chain_def)

lemma fold_claimNode_fields [simp]:
  "vmsByPG (fold (claimNode ty) ns m) = vmsByPG m"
  "pgsByIndex (fold (claimNode ty) ns m) = pgsByIndex m"
  "vmsByIndex (fold (claimNode ty) ns m) = vmsByIndex m"
  "noDomains (fold (claimNode ty) ns m) = noDomains m"
  "noRacks (fold (claimNode ty) ns m) = noRacks m"
  "noPMs (fold (claimNode ty) ns m) = noPMs m"
  "noNodes (fold (claimNode ty) ns m) = noNodes m"
  "types (fold (claimNode ty) ns m) = types m"
  by (induction ns arbitrary: m; simp)+

lemma fold_releaseNode_fields [simp]:
  "vmsByPG (fold (releaseNode ty) ns m) = vmsByPG m"
  "pgsByIndex (fold (releaseNode ty) ns m) = pgsByIndex m"
  "vmsByIndex (fold (releaseNode ty) ns m) = vmsByIndex m"
  "noDomains (fold (releaseNode ty) ns m) = noDomains m"
  "noRacks (fold (releaseNode ty) ns m) = noRacks m"
  "noPMs (fold (releaseNode ty) ns m) = noPMs m"
  "noNodes (fold (releaseNode ty) ns m) = noNodes m"
  "types (fold (releaseNode ty) ns m) = types m"
  by (induction ns arbitrary: m; simp)+

lemma fold_claimNode_store:
  "availableCPU (store (fold (claimNode ty) ns m) x)
     = availableCPU (store m x) - hits x ns * t_cpu ty"
  "availableMemory (store (fold (claimNode ty) ns m) x)
     = availableMemory (store m x) - hits x ns * t_memory ty"
  "totalCPU (store (fold (claimNode ty) ns m) x) = totalCPU (store m x)"
  "totalMemory (store (fold (claimNode ty) ns m) x) = totalMemory (store m x)"
  "typeFits (store (fold (claimNode ty) ns m) x)
     = (if hits x ns = 0 then typeFits (store m x) else Map.empty)"
  by (induction ns arbitrary: m;
      simp add: claimNode_store claimResources_def algebra_simps add_nonneg_eq_0_iff)+

lemma fold_releaseNode_store:
  "availableCPU (store (fold (releaseNode ty) ns m) x)
     = availableCPU (store m x) + hits x ns * t_cpu ty"
  "availableMemory (store (fold (releaseNode ty) ns m) x)
     = availableMemory (store m x) + hits x ns * t_memory ty"
  "totalCPU (store (fold (releaseNode ty) ns m) x) = totalCPU (store m x)"
  "totalMemory (store (fold (releaseNode ty) ns m) x) = totalMemory (store m x)"
  "typeFits (store (fold (releaseNode ty) ns m) x)
     = (if hits x ns = 0 then typeFits (store m x) else Map.empty)"
  by (induction ns arbitrary: m;
      simp add: releaseNode_store releaseResources_def algebra_simps add_nonneg_eq_0_iff)+

subsection \<open>Placing and unplacing\<close>

definition homeHit :: "nodeId list \<Rightarrow> int \<Rightarrow> pmId \<Rightarrow> int \<Rightarrow> int" where
  "homeHit ns g' p g = (case ns of [] \<Rightarrow> 0 | n # _ \<Rightarrow> if pmOf n = p \<and> g' = g then 1 else 0)"

lemma addVmsByPG_fields [simp]:
  "store (addVmsByPG p g k m) = store m"
  "pgsByIndex (addVmsByPG p g k m) = pgsByIndex m"
  "vmsByIndex (addVmsByPG p g k m) = vmsByIndex m"
  "noDomains (addVmsByPG p g k m) = noDomains m"
  "noRacks (addVmsByPG p g k m) = noRacks m"
  "noPMs (addVmsByPG p g k m) = noPMs m"
  "noNodes (addVmsByPG p g k m) = noNodes m"
  "types (addVmsByPG p g k m) = types m"
  by (simp_all add: addVmsByPG_def)

lemma home_fields [simp]:
  "store (case ns of [] \<Rightarrow> m | n # x \<Rightarrow> addVmsByPG (f n) g k m) = store m"
  "pgsByIndex (case ns of [] \<Rightarrow> m | n # x \<Rightarrow> addVmsByPG (f n) g k m) = pgsByIndex m"
  "vmsByIndex (case ns of [] \<Rightarrow> m | n # x \<Rightarrow> addVmsByPG (f n) g k m) = vmsByIndex m"
  "noDomains (case ns of [] \<Rightarrow> m | n # x \<Rightarrow> addVmsByPG (f n) g k m) = noDomains m"
  "noRacks (case ns of [] \<Rightarrow> m | n # x \<Rightarrow> addVmsByPG (f n) g k m) = noRacks m"
  "noPMs (case ns of [] \<Rightarrow> m | n # x \<Rightarrow> addVmsByPG (f n) g k m) = noPMs m"
  "noNodes (case ns of [] \<Rightarrow> m | n # x \<Rightarrow> addVmsByPG (f n) g k m) = noNodes m"
  "types (case ns of [] \<Rightarrow> m | n # x \<Rightarrow> addVmsByPG (f n) g k m) = types m"
  by (cases ns; simp)+

lemma home_vmsByPG:
  "vmsByPG (case ns of [] \<Rightarrow> m | n # x \<Rightarrow> addVmsByPG (pmOf n) g' k m) p g
     = vmsByPG m p g + k * homeHit ns g' p g"
  by (cases ns) (simp_all add: homeHit_def addVmsByPG_def)

lemma place_None [simp]: "vmsByIndex m i = None \<Longrightarrow> place i ns m = m"
  by (simp add: place_def)

lemma unplace_None [simp]: "vmsByIndex m i = None \<Longrightarrow> unplace i m = m"
  by (simp add: unplace_def)

lemma place_fields [simp]:
  "pgsByIndex (place i ns m) = pgsByIndex m"
  "noDomains (place i ns m) = noDomains m"
  "noRacks (place i ns m) = noRacks m"
  "noPMs (place i ns m) = noPMs m"
  "noNodes (place i ns m) = noNodes m"
  "types (place i ns m) = types m"
  by (simp_all add: place_def Let_def split: option.splits)

lemma unplace_fields [simp]:
  "pgsByIndex (unplace i m) = pgsByIndex m"
  "noDomains (unplace i m) = noDomains m"
  "noRacks (unplace i m) = noRacks m"
  "noPMs (unplace i m) = noPMs m"
  "noNodes (unplace i m) = noNodes m"
  "types (unplace i m) = types m"
  by (simp_all add: unplace_def Let_def split: option.splits)

lemma place_vms:
  "vmsByIndex m i = Some vm \<Longrightarrow>
   vmsByIndex (place i ns m) = (vmsByIndex m)(i \<mapsto> vm\<lparr>vm_nodes := ns\<rparr>)"
  by (simp add: place_def Let_def)

lemma unplace_vms:
  "vmsByIndex m i = Some vm \<Longrightarrow>
   vmsByIndex (unplace i m) = (vmsByIndex m)(i \<mapsto> vm\<lparr>vm_nodes := []\<rparr>)"
  by (simp add: unplace_def Let_def)

lemma place_store:
  assumes "vmsByIndex m i = Some vm"
  shows "availableCPU (store (place i ns m) x)
           = availableCPU (store m x) - hits x ns * t_cpu (vm_type vm)"
    and "availableMemory (store (place i ns m) x)
           = availableMemory (store m x) - hits x ns * t_memory (vm_type vm)"
    and "totalCPU (store (place i ns m) x) = totalCPU (store m x)"
    and "totalMemory (store (place i ns m) x) = totalMemory (store m x)"
    and "typeFits (store (place i ns m) x)
           = (if hits x ns = 0 then typeFits (store m x) else Map.empty)"
  using assms
  by (simp_all add: place_def Let_def fold_claimNode_store)

lemma unplace_store:
  assumes "vmsByIndex m i = Some vm"
  shows "availableCPU (store (unplace i m) x)
           = availableCPU (store m x) + hits x (vm_nodes vm) * t_cpu (vm_type vm)"
    and "availableMemory (store (unplace i m) x)
           = availableMemory (store m x) + hits x (vm_nodes vm) * t_memory (vm_type vm)"
    and "totalCPU (store (unplace i m) x) = totalCPU (store m x)"
    and "totalMemory (store (unplace i m) x) = totalMemory (store m x)"
    and "typeFits (store (unplace i m) x)
           = (if hits x (vm_nodes vm) = 0 then typeFits (store m x) else Map.empty)"
  using assms
  by (simp_all add: unplace_def Let_def fold_releaseNode_store)

lemma place_vmsByPG:
  "vmsByIndex m i = Some vm \<Longrightarrow>
   vmsByPG (place i ns m) p g = vmsByPG m p g + homeHit ns (vm_pg vm) p g"
  by (simp add: place_def Let_def home_vmsByPG)

lemma unplace_vmsByPG:
  "vmsByIndex m i = Some vm \<Longrightarrow>
   vmsByPG (unplace i m) p g = vmsByPG m p g - homeHit (vm_nodes vm) (vm_pg vm) p g"
  by (simp add: unplace_def Let_def home_vmsByPG)

lemma placed_place:
  "placed (place i ns m) j =
     (if j = i \<and> vmsByIndex m i \<noteq> None then ns \<noteq> [] else placed m j)"
  by (cases "vmsByIndex m i") (auto simp: placed_def place_vms isPlaced_def)

lemma placed_unplace:
  "placed (unplace i m) j = (if j = i then False else placed m j)"
  by (cases "vmsByIndex m i") (auto simp: placed_def unplace_vms isPlaced_def)

subsection \<open>Steps that only write caches\<close>

definition cacheOnly :: "Manager \<Rightarrow> Manager \<Rightarrow> bool" where
  "cacheOnly m m' \<longleftrightarrow> (\<exists>c. m' = m\<lparr>store := \<lambda>x. (store m x)\<lparr>typeFits := c x\<rparr>\<rparr>)"

lemma cacheOnly_refl [simp]: "cacheOnly m m"
proof -
  have "m = m\<lparr>store := \<lambda>x. (store m x)\<lparr>typeFits := typeFits (store m x)\<rparr>\<rparr>"
    by simp
  then show ?thesis
    unfolding cacheOnly_def by (rule exI [where x = "\<lambda>x. typeFits (store m x)"])
qed

lemma cacheOnly_trans: "cacheOnly a b \<Longrightarrow> cacheOnly b c \<Longrightarrow> cacheOnly a c"
  unfolding cacheOnly_def by auto

lemma cacheOnly_fields:
  assumes "cacheOnly m m'"
  shows "vmsByPG m' = vmsByPG m" "pgsByIndex m' = pgsByIndex m" "vmsByIndex m' = vmsByIndex m"
    "noDomains m' = noDomains m" "noRacks m' = noRacks m" "noPMs m' = noPMs m"
    "noNodes m' = noNodes m" "types m' = types m"
    "availableCPU (store m' x) = availableCPU (store m x)"
    "availableMemory (store m' x) = availableMemory (store m x)"
    "totalCPU (store m' x) = totalCPU (store m x)"
    "totalMemory (store m' x) = totalMemory (store m x)"
  using assms unfolding cacheOnly_def by auto

lemma cacheOnly_sameFleet: "cacheOnly m m' \<Longrightarrow> sameFleet m m'"
  by (simp add: sameFleet_def cacheOnly_fields)

lemma cacheOnly_derived:
  assumes "cacheOnly m m'"
  shows "hasResources (store m' x) c mem = hasResources (store m x) c mem"
    "hasResourcesType (store m' x) ty = hasResourcesType (store m x) ty"
    "getLoad (store m' x) = getLoad (store m x)"
    "loadOf m' = loadOf m"
    "placed m' = placed m"
    "nodeFitOf (store m' x) ty = nodeFitOf (store m x) ty"
  using assms
  by (simp_all add: hasResources_def hasResourcesType_def getLoad_def loadOf_def placed_def
      nodeFitOf_def cacheOnly_fields fun_eq_iff)

lemma cacheOnly_store_update:
  "cacheOnly m (m\<lparr>store := (store m)(x := (store m x)\<lparr>typeFits := c\<rparr>)\<rparr>)"
proof -
  have "m\<lparr>store := (store m)(x := (store m x)\<lparr>typeFits := c\<rparr>)\<rparr>
      = m\<lparr>store := \<lambda>y. (store m y)\<lparr>typeFits := (if y = x then c else typeFits (store m y))\<rparr>\<rparr>"
    by (simp add: fun_eq_iff)
  then show ?thesis
    unfolding cacheOnly_def
    by (rule exI [where x = "\<lambda>y. if y = x then c else typeFits (store m y)"])
qed

lemma cacheOnly_memo:
  assumes "cacheOnly m (snd (impl m))"
  shows "cacheOnly m (snd (memo x ty impl m))"
proof (cases "typeFits (store m x) (t_index ty)")
  case None
  obtain v m' where im: "impl m = (v, m')" by (cases "impl m")
  with assms have "cacheOnly m m'" by simp
  from cacheOnly_trans [OF this cacheOnly_store_update]
  show ?thesis using None im by (simp add: memo_def)
next
  case (Some v)
  then show ?thesis by (simp add: memo_def)
qed

lemma cacheOnly_fitList:
  assumes "\<And>x m. cacheOnly m (snd (f x m))"
  shows "cacheOnly m (snd (fitList f xs m))"
proof (induction xs arbitrary: m)
  case Nil
  show ?case by simp
next
  case (Cons x xs)
  obtain v m1 where f: "f x m = (v, m1)" by (cases "f x m")
  obtain vs m2 where r: "fitList f xs m1 = (vs, m2)" by (cases "fitList f xs m1")
  from assms [of m x] f have "cacheOnly m m1" by simp
  moreover from Cons.IH [of m1] r have "cacheOnly m1 m2" by simp
  ultimately show ?case using f r by (simp add: cacheOnly_trans)
qed

lemma fitList_Cons:
  "fitList f (x # xs) m
     = (fst (f x m) # fst (fitList f xs (snd (f x m))), snd (fitList f xs (snd (f x m))))"
  by (simp add: split_def Let_def)

lemma length_fitList [simp]: "length (fst (fitList f xs m)) = length xs"
  by (induction xs arbitrary: m) (simp_all add: fitList_Cons del: fitList.simps(2))

lemma cacheOnly_getTypeFitNode [simp]: "cacheOnly m (snd (getTypeFitNode ty n m))"
  unfolding getTypeFitNode_def by (rule cacheOnly_memo) simp

lemma cacheOnly_getTypeFitPM [simp]: "cacheOnly m (snd (getTypeFitPM ty p m))"
  unfolding getTypeFitPM_def
  by (rule cacheOnly_memo) (simp add: split_def Let_def cacheOnly_fitList)

lemma cacheOnly_getTypeFitRack [simp]: "cacheOnly m (snd (getTypeFitRack ty r m))"
  unfolding getTypeFitRack_def
  by (rule cacheOnly_memo) (simp add: split_def Let_def cacheOnly_fitList)

lemma cacheOnly_getTypeFitDomain [simp]: "cacheOnly m (snd (getTypeFitDomain ty d m))"
  unfolding getTypeFitDomain_def
  by (rule cacheOnly_memo) (simp add: split_def Let_def cacheOnly_fitList)

lemma cacheOnly_getTypeFit [simp]: "cacheOnly m (snd (getTypeFit x ty m))"
  by (cases x) simp_all

lemma cacheOnly_sortRacksByFit [simp]: "cacheOnly m (snd (sortRacksByFit ty racks m))"
  by (simp add: sortRacksByFit_def cacheOnly_fitList)

lemma cacheOnly_sortNodesByFit [simp]: "cacheOnly m (snd (sortNodesByFit ty ns m))"
  by (simp add: sortNodesByFit_def cacheOnly_fitList)

lemma set_sortRacksByFit [simp]: "set (fst (sortRacksByFit ty racks m)) = set racks"
  by (simp add: sortRacksByFit_def)

lemma set_sortNodesByFit [simp]: "set (fst (sortNodesByFit ty ns m)) = set ns"
  by (simp add: sortNodesByFit_def)

subsection \<open>The cache invariant\<close>
















subsection \<open>The footprint of the search\<close>

text \<open>
  Every state change of the search is one of: a cache fill by \<^verbatim>\<open>getTypeFit\<close>, the
  placement of a VM (under a guard \<open>G\<close>, on the state just before), the unplacement of a
  placed VM of the set \<open>B\<close>, and a refresh of the derived state of a group.
\<close>

inductive fp :: "(Manager \<Rightarrow> int \<Rightarrow> nodeId list \<Rightarrow> bool) \<Rightarrow> int set \<Rightarrow> Manager \<Rightarrow> Manager \<Rightarrow> bool"
  for G :: "Manager \<Rightarrow> int \<Rightarrow> nodeId list \<Rightarrow> bool" and B :: "int set" where
  fp_refl [simp, intro!]: "fp G B m m"
| fp_fill: "fp G B m m1 \<Longrightarrow> ty \<in> set (types m1) \<Longrightarrow> fp G B m (snd (getTypeFit x ty m1))"
| fp_place: "fp G B m m1 \<Longrightarrow> G m1 i ns \<Longrightarrow> fp G B m (place i ns m1)"
| fp_unplace: "fp G B m m1 \<Longrightarrow> i \<in> B \<Longrightarrow> placed m1 i \<Longrightarrow> fp G B m (unplace i m1)"
| fp_update: "fp G B m m1 \<Longrightarrow> fp G B m (updateTargets g m1)"

lemma fp_trans:
  assumes "fp G B a b" and "fp G B b c"
  shows "fp G B a c"
  using assms(2, 1) by (induction rule: fp.induct) (auto intro: fp.intros)

lemma fp_mono:
  assumes "fp G B m m'" and "\<And>m i ns. G m i ns \<Longrightarrow> G' m i ns" and "B \<subseteq> B'"
  shows "fp G' B' m m'"
  using assms(1)
proof (induction rule: fp.induct)
  case (fp_refl m)
  show ?case by simp
next
  case (fp_fill m m1 ty x)
  then show ?case by (auto intro: fp.fp_fill)
next
  case (fp_place m m1 i ns)
  then show ?case by (auto intro: fp.fp_place assms(2))
next
  case (fp_unplace m m1 i)
  then show ?case using assms(3) by (auto intro: fp.fp_unplace)
next
  case (fp_update m m1 g)
  then show ?case by (auto intro: fp.fp_update)
qed

lemma fp_sameFleet: "fp G B m m' \<Longrightarrow> sameFleet m m'"
proof (induction rule: fp.induct)
  case (fp_refl m)
  show ?case by simp
next
  case (fp_fill m m1 ty x)
  then show ?case
    using sameFleet_trans [OF _ cacheOnly_sameFleet [OF cacheOnly_getTypeFit]] by blast
next
  case (fp_place m m1 i ns)
  then show ?case by (simp add: sameFleet_def)
next
  case (fp_unplace m m1 i)
  then show ?case by (simp add: sameFleet_def)
next
  case (fp_update m m1 g)
  then show ?case by (simp add: sameFleet_def)
qed

lemma fp_types: "fp G B m m' \<Longrightarrow> types m' = types m"
  by (drule fp_sameFleet) (simp add: sameFleet_def)

lemma fp_fill1: "ty \<in> set (types m) \<Longrightarrow> fp G B m (snd (getTypeFit x ty m))"
  by (rule fp_fill [OF fp_refl])

lemma fp_fitList:
  assumes f: "\<And>y m. f y m = getTypeFit (h y) ty m"
  shows "ty \<in> set (types m) \<Longrightarrow> fp G B m (snd (fitList f ys m))"
proof (induction ys arbitrary: m)
  case Nil
  show ?case by simp
next
  case (Cons y ys)
  have 1: "fp G B m (snd (f y m))"
    unfolding f by (rule fp_fill1 [OF Cons.prems])
  have "ty \<in> set (types (snd (f y m)))"
    using Cons.prems fp_types [OF 1] by simp
  from fp_trans [OF 1 Cons.IH [OF this]] show ?case
    by (simp add: fitList_Cons del: fitList.simps(2))
qed

lemma fp_sortRacksByFit:
  "ty \<in> set (types m) \<Longrightarrow> fp G B m (snd (sortRacksByFit ty racks m))"
  by (simp add: sortRacksByFit_def fp_fitList [where h = AtRack])

lemma fp_sortNodesByFit:
  "ty \<in> set (types m) \<Longrightarrow> fp G B m (snd (sortNodesByFit ty ns m))"
  by (simp add: sortNodesByFit_def fp_fitList [where h = AtNode])

lemma fp_unplaceVMs: "set vs \<subseteq> B \<Longrightarrow> fp G B m (unplaceVMs vs m)"
proof (induction vs arbitrary: m)
  case Nil
  show ?case by (simp add: unplaceVMs_def)
next
  case (Cons i vs)
  let ?m1 = "if placed m i then unplace i m else m"
  have 1: "fp G B m ?m1"
    using Cons.prems by (auto intro: fp_unplace [OF fp_refl])
  have 2: "fp G B ?m1 (unplaceVMs vs ?m1)"
    using Cons.prems by (intro Cons.IH) simp
  from fp_trans [OF 1 2] show ?case by (simp add: unplaceVMs_def)
qed

lemma unplaceVMs_Cons:
  "unplaceVMs (i # vs) m = unplaceVMs vs (if placed m i then unplace i m else m)"
  by (simp add: unplaceVMs_def)

lemma unplaceVMs_Nil [simp]: "unplaceVMs [] m = m"
  by (simp add: unplaceVMs_def)

lemma placed_unplaceVMs:
  "placed (unplaceVMs vs m) j = (if j \<in> set vs then False else placed m j)"
  by (induction vs arbitrary: m) (auto simp: unplaceVMs_Cons placed_unplace)

subsection \<open>The footprint of \<^verbatim>\<open>tryPlaceInner\<close>\<close>

definition placeGuard :: "Type \<Rightarrow> int set \<Rightarrow> rackId set \<Rightarrow> Manager \<Rightarrow> int \<Rightarrow> nodeId list \<Rightarrow> bool" where
  "placeGuard ty V R m i ns \<longleftrightarrow>
     i \<in> V \<and> \<not> placed m i \<and> int (length ns) = t_nodes ty
     \<and> (\<forall>n \<in> set ns. rackOf (pmOf n) \<in> R)"

lemma set_pickNodes: "set (pickNodes m ty ns acc) \<subseteq> set ns \<union> set acc"
proof (induction ns arbitrary: acc)
  case Nil
  show ?case by simp
next
  case (Cons n ns)
  from Cons.IH [of acc] Cons.IH [of "acc @ [n]"] show ?case
    by (simp del: length_append) blast
qed

lemma pmOf_nodesOf: "n \<in> set (nodesOf m p) \<Longrightarrow> pmOf n = p"
  by (cases p) (auto simp: nodesOf_def)

lemma rackOf_pmsOf: "p \<in> set (pmsOf m r) \<Longrightarrow> rackOf p = r"
  by (cases r) (auto simp: pmsOf_def)

lemma fp_tryPMs:
  assumes "ty \<in> set (types m)" and "i \<in> V" and "\<not> placed m i"
    and "\<forall>p \<in> set ps. rackOf p \<in> R"
  shows "fp (placeGuard ty V R) B m (snd (tryPMs pg i ty force ps pl m))"
  using assms
proof (induction ps arbitrary: m pl)
  case Nil
  show ?case by simp
next
  case (Cons p ps)
  let ?G = "placeGuard ty V R"
  let ?m1 = "snd (sortNodesByFit ty (nodesOf m p) m)"
  let ?pmNodes = "fst (sortNodesByFit ty (nodesOf m p) m)"
  let ?vmNodes = "pickNodes ?m1 ty ?pmNodes []"
  have rest: "fp ?G B m (snd (tryPMs pg i ty force ps pl' m))" for pl'
    using Cons.prems by (intro Cons.IH) simp_all
  have f1: "fp ?G B m ?m1" by (rule fp_sortNodesByFit [OF Cons.prems(1)])
  have co: "cacheOnly m ?m1" by simp
  have rest1: "fp ?G B m (snd (tryPMs pg i ty force ps pl' ?m1))" for pl'
  proof -
    have "fp ?G B ?m1 (snd (tryPMs pg i ty force ps pl' ?m1))"
      using Cons.prems by (intro Cons.IH) (simp_all add: cacheOnly_fields [OF co] cacheOnly_derived [OF co])
    from fp_trans [OF f1 this] show ?thesis .
  qed
  have pl: "fp ?G B m (place i ?vmNodes ?m1)" if len: "int (length ?vmNodes) = t_nodes ty"
  proof -
    have "set ?vmNodes \<subseteq> set (nodesOf m p)"
      using set_pickNodes [of ?m1 ty ?pmNodes "[]"] by simp
    then have "\<forall>n \<in> set ?vmNodes. rackOf (pmOf n) \<in> R"
      using Cons.prems(4) by (auto dest!: subsetD pmOf_nodesOf)
    then have "?G ?m1 i ?vmNodes"
      using Cons.prems len by (simp add: placeGuard_def cacheOnly_derived [OF co])
    from fp_place [OF f1 this] show ?thesis .
  qed
  show ?case
    using rest rest1 pl by (auto simp add: split_def Let_def)
qed

lemma tryPMs_unplaced:
  "\<not> placed m i \<Longrightarrow> \<not> placed (snd (tryPMs pg i ty force ps pl m)) i \<Longrightarrow>
   ty \<in> set (types m) \<Longrightarrow> True"
  by simp

lemma fp_tryRacks:
  assumes "ty \<in> set (types m)" and "i \<in> V" and "\<not> placed m i" and "set rs \<subseteq> R"
  shows "fp (placeGuard ty V R) B m (snd (tryRacks pg i ty force rs pl m))"
  using assms
proof (induction rs arbitrary: m pl)
  case Nil
  show ?case by simp
next
  case (Cons r rs)
  let ?G = "placeGuard ty V R"
  let ?t = "tryPMs pg i ty force (pmsOf m r) pl m"
  have rest: "fp ?G B m (snd (tryRacks pg i ty force rs pl m))"
    using Cons.prems by (intro Cons.IH) simp_all
  have f1: "fp ?G B m (snd ?t)"
    using Cons.prems by (intro fp_tryPMs) (auto dest: rackOf_pmsOf)
  have rest1: "fp ?G B m (snd (tryRacks pg i ty force rs (fst ?t) (snd ?t)))"
    if "\<not> placed (snd ?t) i"
  proof -
    have "fp ?G B (snd ?t) (snd (tryRacks pg i ty force rs (fst ?t) (snd ?t)))"
      using Cons.prems that fp_types [OF f1] by (intro Cons.IH) simp_all
    from fp_trans [OF f1 this] show ?thesis .
  qed
  show ?case
    using rest rest1 f1 by (auto simp add: split_def Let_def)
qed

lemma set_tryPlaceInner_racks [simp]:
  "set (fst (tryPlaceInner pg vs ty force racks pl m)) = set racks"
  by (induction vs arbitrary: racks pl m) (simp_all add: split_def Let_def)

lemma fp_tryPlaceInner:
  assumes "ty \<in> set (types m)" and "set vs \<subseteq> V" and "set racks \<subseteq> R"
  shows "fp (placeGuard ty V R) B m (snd (snd (tryPlaceInner pg vs ty force racks pl m)))"
  using assms
proof (induction vs arbitrary: m pl racks)
  case Nil
  show ?case by simp
next
  case (Cons i vs)
  let ?G = "placeGuard ty V R"
  let ?s = "sortRacksByFit ty racks m"
  let ?t = "tryRacks pg i ty force (fst ?s) pl (snd ?s)"
  have skip: "fp ?G B m (snd (snd (tryPlaceInner pg vs ty force racks pl m)))"
    using Cons.prems by (intro Cons.IH) simp_all
  have go: "fp ?G B m (snd (snd (tryPlaceInner pg vs ty force (fst ?s) (fst ?t) (snd ?t))))"
    if np: "\<not> placed m i"
  proof -
    have f1: "fp ?G B m (snd ?s)" by (rule fp_sortRacksByFit [OF Cons.prems(1)])
    have co: "cacheOnly m (snd ?s)" by simp
    have f2: "fp ?G B (snd ?s) (snd ?t)"
      using Cons.prems np
      by (intro fp_tryRacks) (simp_all add: cacheOnly_fields [OF co] cacheOnly_derived [OF co])
    have f12: "fp ?G B m (snd ?t)" by (rule fp_trans [OF f1 f2])
    have "fp ?G B (snd ?t) (snd (snd (tryPlaceInner pg vs ty force (fst ?s) (fst ?t) (snd ?t))))"
      using Cons.prems fp_types [OF f12] by (intro Cons.IH) simp_all
    from fp_trans [OF f12 this] show ?thesis .
  qed
  show ?case
    using skip go by (auto simp add: split_def Let_def)
qed

subsection \<open>The footprint of a rack group and of the search of a request\<close>

lemma set_tryPlace_racks [simp]:
  "set (fst (snd (tryPlace g vs ty racks force m))) = set racks"
  by (simp add: tryPlace_def split_def Let_def split: option.splits)

lemma fp_tryPlace:
  assumes ty: "ty \<in> set (types m)" and V: "set vs \<subseteq> V" and B: "set vs \<subseteq> B"
    and R: "set racks \<subseteq> R"
  shows "fp (placeGuard ty V R) B m (snd (snd (tryPlace g vs ty racks force m)))"
proof -
  let ?G = "placeGuard ty V R"
  let ?m0 = "unplaceVMs vs m"
  have f0: "fp ?G B m ?m0" by (rule fp_unplaceVMs [OF B])
  have ty0: "ty \<in> set (types ?m0)" using ty fp_types [OF f0] by simp
  have inner: "fp ?G B m (snd (snd (tryPlace g vs ty racks force m)))"
    if pg: "pgsByIndex ?m0 g = Some pg" for pg
  proof -
    let ?a = "tryPlaceInner pg vs ty False racks [] ?m0"
    let ?b = "tryPlaceInner pg vs ty True (fst ?a) (fst (snd ?a)) (snd (snd ?a))"
    have f1: "fp ?G B m (snd (snd ?a))"
      by (rule fp_trans [OF f0 fp_tryPlaceInner [OF ty0 V R]])
    have ty1: "ty \<in> set (types (snd (snd ?a)))" using ty fp_types [OF f1] by simp
    have f2: "fp ?G B m (snd (snd ?b))"
      by (rule fp_trans [OF f1 fp_tryPlaceInner [OF ty1 V]]) (simp add: R)
    from f0 f1 f2 fp_update [OF f1] fp_update [OF f2] pg show ?thesis
      by (auto simp add: tryPlace_def split_def Let_def split: option.splits)
  qed
  show ?thesis
  proof (cases "pgsByIndex ?m0 g")
    case None
    with f0 show ?thesis by (simp add: tryPlace_def split_def Let_def)
  next
    case (Some pg)
    then show ?thesis by (rule inner)
  qed
qed

lemma fp_expand:
  assumes "ty \<in> set (types m)" and "set vs \<subseteq> V" and "set vs \<subseteq> B"
    and "set cur \<union> set extra \<subseteq> R"
  shows "fp (placeGuard ty V R) B m (snd (expand g vs ty force cur extra m))"
  using assms
proof (induction extra arbitrary: cur m)
  case Nil
  from fp_tryPlace [OF Nil.prems(1-3), of cur R g force] Nil.prems(4) show ?case
    by (simp add: split_def)
next
  case (Cons e es)
  let ?G = "placeGuard ty V R"
  let ?t = "tryPlace g vs ty cur force m"
  have f1: "fp ?G B m (snd (snd ?t))"
    using Cons.prems by (intro fp_tryPlace) simp_all
  have "fp ?G B (snd (snd ?t)) (snd (expand g vs ty force (fst (snd ?t) @ [e]) es (snd (snd ?t))))"
    using Cons.prems fp_types [OF f1] by (intro Cons.IH) simp_all
  from fp_trans [OF f1 this] f1 show ?case
    by (auto simp add: split_def split: option.splits)
qed

text \<open>The two rounds of \<^verbatim>\<open>for (bool force : {false, true})\<close>.\<close>

definition expandBoth :: "int \<Rightarrow> int list \<Rightarrow> Type \<Rightarrow> rackId list \<Rightarrow> rackId list \<Rightarrow> Manager
    \<Rightarrow> Placement option \<times> Manager" where
  "expandBoth g vs ty startRacks extraRacks m =
     (case expand g vs ty False startRacks extraRacks m of
        (Some p, m2) \<Rightarrow> (Some p, m2)
      | (None, m2) \<Rightarrow> expand g vs ty True startRacks extraRacks m2)"

lemma placePartition_expandBoth:
  "placePartition ho g ty racks pv m =
     (let m1 = updateTargets g (unplaceVMs (snd pv) m)
      in case pgsByIndex m1 g of
           None \<Rightarrow> (None, m1)
         | Some pg \<Rightarrow>
             (case startAndExtra ho pg m1 racks (fst pv) of
                None \<Rightarrow> (None, m1)
              | Some se \<Rightarrow> expandBoth g (snd pv) ty (fst se) (snd se) m1))"
  by (simp add: placePartition_def expandBoth_def Let_def split_def split: option.splits)

lemma fp_expandBoth:
  assumes "ty \<in> set (types m)" and "set vs \<subseteq> V" and "set vs \<subseteq> B"
    and "set start \<union> set extra \<subseteq> R"
  shows "fp (placeGuard ty V R) B m (snd (expandBoth g vs ty start extra m))"
proof -
  let ?G = "placeGuard ty V R"
  let ?a = "expand g vs ty False start extra m"
  have f1: "fp ?G B m (snd ?a)" by (rule fp_expand [OF assms])
  have "fp ?G B (snd ?a) (snd (expand g vs ty True start extra (snd ?a)))"
    using assms fp_types [OF f1] by (intro fp_expand) simp_all
  from fp_trans [OF f1 this] f1 show ?thesis
    by (auto simp add: expandBoth_def split_def split: option.splits)
qed

lemma fp_placePartition:
  assumes ty: "ty \<in> set (types m)" and B: "set (snd pv) \<subseteq> B"
  shows "fp (placeGuard ty B UNIV) B m (snd (placePartition ho g ty racks pv m))"
proof -
  let ?G = "placeGuard ty B UNIV"
  let ?m1 = "updateTargets g (unplaceVMs (snd pv) m)"
  have f1: "fp ?G B m ?m1"
    by (rule fp_update [OF fp_unplaceVMs [OF B]])
  have ty1: "ty \<in> set (types ?m1)" using ty fp_types [OF f1] by simp
  have "fp ?G B m (snd (expandBoth g (snd pv) ty start extra ?m1))" for start extra
    by (rule fp_trans [OF f1 fp_expandBoth [OF ty1 B B]]) simp
  with f1 show ?thesis
    by (auto simp add: placePartition_expandBoth Let_def split: option.splits)
qed

lemma fp_partitionLoop:
  assumes "ty \<in> set (types m)" and "\<forall>pv \<in> set pvs. set (snd pv) \<subseteq> B"
  shows "fp (placeGuard ty B UNIV) B m (snd (partitionLoop ho g ty racks pvs acc m))"
  using assms
proof (induction pvs arbitrary: acc m)
  case Nil
  show ?case by simp
next
  case (Cons pv pvs)
  let ?G = "placeGuard ty B UNIV"
  let ?t = "placePartition ho g ty racks pv m"
  have f1: "fp ?G B m (snd ?t)"
    using Cons.prems by (intro fp_placePartition) simp_all
  have "fp ?G B (snd ?t) (snd (partitionLoop ho g ty racks pvs acc' (snd ?t)))" for acc'
    using Cons.prems fp_types [OF f1] by (intro Cons.IH) simp_all
  from fp_trans [OF f1 this] f1 show ?case
    by (auto simp add: split_def split: option.splits)
qed

lemma vmsByPartition_subset:
  "pv \<in> set (vmsByPartition ho m vs) \<Longrightarrow> set (snd pv) \<subseteq> set vs"
  by (auto simp: vmsByPartition_def)

lemma fp_getBestPlacement:
  assumes "ty \<in> set (types m)" and "set vs \<subseteq> B"
  shows "fp (placeGuard ty B UNIV) B m (snd (getBestPlacement ho g vs ty racks m))"
proof -
  have "fp (placeGuard ty B UNIV) B m
      (snd (partitionLoop ho g ty racks (vmsByPartition ho m vs) acc m))" for acc
    using assms by (intro fp_partitionLoop) (auto dest!: vmsByPartition_subset)
  then show ?thesis
    by (auto simp add: getBestPlacement_def split_def split: option.splits)
qed

lemma fp_groupsLoop:
  assumes "ty \<in> set (types m)" and "set vs \<subseteq> B"
  shows "fp (placeGuard ty B UNIV) B m (snd (groupsLoop ho g vs ty groups best m))"
  using assms
proof (induction groups arbitrary: best m)
  case Nil
  show ?case by simp
next
  case (Cons racks groups)
  let ?G = "placeGuard ty B UNIV"
  let ?t = "getBestPlacement ho g vs ty racks m"
  have f1: "fp ?G B m (snd ?t)"
    using Cons.prems by (intro fp_getBestPlacement) simp_all
  have "fp ?G B (snd ?t) (snd (groupsLoop ho g vs ty groups best' (snd ?t)))" for best'
    using Cons.prems fp_types [OF f1] by (intro Cons.IH) simp_all
  from fp_trans [OF f1 this] show ?case
    by (auto simp add: split_def split: option.splits)
qed

lemma fp_fittingDomains:
  "ty \<in> set (types m) \<Longrightarrow> fp G B m (snd (fittingDomains ty n ds m))"
proof (induction ds arbitrary: m)
  case Nil
  show ?case by simp
next
  case (Cons d ds)
  let ?t = "fitList (getTypeFitRack ty) (racksOf m d) m"
  have f1: "fp G B m (snd ?t)"
    by (rule fp_fitList [where h = AtRack, OF _ Cons.prems]) simp
  have "fp G B (snd ?t) (snd (fittingDomains ty n ds (snd ?t)))"
    using Cons.prems fp_types [OF f1] by (intro Cons.IH) simp
  from fp_trans [OF f1 this] show ?case
    by (simp add: split_def Let_def)
qed

lemma fp_rackGroups2:
  "ty \<in> set (types m) \<Longrightarrow> fp G B m (snd (rackGroups2 pg ty n groups m))"
  by (auto simp add: rackGroups2_def fittingRacks_def split_def Let_def
      fp_fittingDomains fp_fitList [where h = AtRack] split: option.splits)

lemma fp_getRackGroups2:
  assumes "\<And>i vm rest. vs = i # rest \<Longrightarrow> vmsByIndex m i = Some vm \<Longrightarrow> vm_type vm \<in> set (types m)"
  shows "fp G B m (snd (getRackGroups2 vs m))"
proof (cases vs)
  case Nil
  then show ?thesis by (simp add: getRackGroups2_def)
next
  case (Cons i rest)
  show ?thesis
  proof (cases "vmsByIndex m i")
    case None
    with Cons show ?thesis by (simp add: getRackGroups2_def)
  next
    case (Some vm)
    let ?g = "vm_pg vm"
    let ?m2 = "updateTargets ?g (updateTargets ?g m)"
    have f2: "fp G B m ?m2" by (intro fp_update) simp
    have ty: "vm_type vm \<in> set (types ?m2)" using assms [OF Cons Some] by simp
    have "fp G B m (snd (rackGroups2 pg (vm_type vm) n groups ?m2))" for pg n groups
      by (rule fp_trans [OF f2 fp_rackGroups2 [OF ty]])
    with f2 Cons Some show ?thesis
      by (auto simp add: getRackGroups2_def getRackGroups_def Let_def split_def split: option.splits)
  qed
qed





lemma registerVMs_fields [simp]:
  "store (registerVMs ty g part k ids m) = store m"
  "vmsByPG (registerVMs ty g part k ids m) = vmsByPG m"
  "noDomains (registerVMs ty g part k ids m) = noDomains m"
  "noRacks (registerVMs ty g part k ids m) = noRacks m"
  "noPMs (registerVMs ty g part k ids m) = noPMs m"
  "noNodes (registerVMs ty g part k ids m) = noNodes m"
  "types (registerVMs ty g part k ids m) = types m"
  by (induction ids arbitrary: k m; simp add: Let_def split: option.splits)+

lemma createPG_fields [simp]:
  "store (createPG idx h s d r m) = store m"
  "vmsByPG (createPG idx h s d r m) = vmsByPG m"
  "vmsByIndex (createPG idx h s d r m) = vmsByIndex m"
  "noDomains (createPG idx h s d r m) = noDomains m"
  "noRacks (createPG idx h s d r m) = noRacks m"
  "noPMs (createPG idx h s d r m) = noPMs m"
  "noNodes (createPG idx h s d r m) = noNodes m"
  "types (createPG idx h s d r m) = types m"
  by (simp_all add: createPG_def split: option.splits)






text \<open>One round of the first loop of \<^verbatim>\<open>createVMs\<close>.\<close>

definition registerVM :: "Type \<Rightarrow> int \<Rightarrow> int \<Rightarrow> nat \<Rightarrow> int \<Rightarrow> Manager \<Rightarrow> Manager" where
  "registerVM ty g part k i m =
     (let m1 = (case vmsByIndex m i of
                  Some _ \<Rightarrow> m
                | None \<Rightarrow>
                    m\<lparr>vmsByIndex := (vmsByIndex m)(i \<mapsto>
                        \<lparr>vm_index = i, vm_type = ty, vm_pg = g,
                         partition = (if part \<ge> 0 then part else int k + 1),
                         vm_nodes = []\<rparr>)\<rparr>)
      in case pgsByIndex m1 g of
           None \<Rightarrow> m1
         | Some pg \<Rightarrow> m1\<lparr>pgsByIndex := (pgsByIndex m1)(g \<mapsto> pg\<lparr>vms := vms pg @ [i]\<rparr>)\<rparr>)"

lemma registerVMs_Cons:
  "registerVMs ty g part k (i # rest) m
     = registerVMs ty g part (Suc k) rest (registerVM ty g part k i m)"
  by (simp add: registerVM_def Let_def)

lemma registerVM_vms:
  "vmsByIndex (registerVM ty g part k i m) j =
     (if j = i \<and> vmsByIndex m i = None
      then Some \<lparr>vm_index = i, vm_type = ty, vm_pg = g,
                 partition = (if part \<ge> 0 then part else int k + 1), vm_nodes = []\<rparr>
      else vmsByIndex m j)"
  by (simp add: registerVM_def Let_def split: option.splits)

lemma registerVM_pgs:
  "pgsByIndex (registerVM ty g part k i m) h =
     (if h = g then map_option (\<lambda>pg. pg\<lparr>vms := vms pg @ [i]\<rparr>) (pgsByIndex m g)
      else pgsByIndex m h)"
  by (simp add: registerVM_def Let_def split: option.splits)

lemma registerVMs_kept:
  "vmsByIndex m i = Some vm \<Longrightarrow> vmsByIndex (registerVMs ty g part k ids m) i = Some vm"
proof (induction ids arbitrary: k m)
  case Nil
  then show ?case by simp
next
  case (Cons j ids)
  from Cons.prems have "vmsByIndex (registerVM ty g part k j m) i = Some vm"
    by (auto simp: registerVM_vms)
  from Cons.IH [OF this] show ?case
    by (simp only: registerVMs_Cons)
qed

lemma registerVMs_other:
  "i \<notin> set ids \<Longrightarrow> vmsByIndex (registerVMs ty g part k ids m) i = vmsByIndex m i"
  by (induction ids arbitrary: k m) (simp_all add: registerVMs_Cons registerVM_vms del: registerVMs.simps(2))

lemma registerVMs_new:
  "i \<in> set ids \<Longrightarrow> vmsByIndex m i = None \<Longrightarrow>
   \<exists>vm. vmsByIndex (registerVMs ty g part k ids m) i = Some vm
        \<and> vm_index vm = i \<and> vm_type vm = ty \<and> vm_pg vm = g \<and> vm_nodes vm = []
        \<and> (if part \<ge> 0 then partition vm = part else partition vm > 0)"
proof (induction ids arbitrary: k m)
  case Nil
  then show ?case by simp
next
  case (Cons j ids)
  let ?m2 = "registerVM ty g part k j m"
  show ?case
  proof (cases "i = j")
    case True
    with Cons.prems
    have "vmsByIndex ?m2 i = Some \<lparr>vm_index = j, vm_type = ty, vm_pg = g,
              partition = (if part \<ge> 0 then part else int k + 1), vm_nodes = []\<rparr>"
      by (simp add: registerVM_vms)
    from registerVMs_kept [OF this] True show ?thesis
      by (auto simp only: registerVMs_Cons VM.simps split: if_splits)
  next
    case False
    with Cons.prems have "i \<in> set ids" "vmsByIndex ?m2 i = None"
      by (simp_all add: registerVM_vms)
    from Cons.IH [OF this] show ?thesis
      by (simp only: registerVMs_Cons)
  qed
qed

text \<open>The search of \<^verbatim>\<open>createVMs\<close>: the rack groups, the loop over them and the
  \<^verbatim>\<open>unplaceVMs\<close> after the loop.\<close>

definition searchPlan :: "HashOrder \<Rightarrow> int \<Rightarrow> int list \<Rightarrow> Type \<Rightarrow> Manager \<Rightarrow> Placement option \<times> Manager" where
  "searchPlan ho g indices ty m1 =
     (let (groups, m2) = getRackGroups2 indices m1;
          (best, m3) = groupsLoop ho g indices ty groups None m2
      in (best, unplaceVMs indices m3))"

definition requestType :: "Manager \<Rightarrow> int \<Rightarrow> Type" where
  "requestType m typeIndex = types m ! nat (typeIndex - 1)"

definition requestPartition :: "PG \<Rightarrow> int \<Rightarrow> int" where
  "requestPartition pg part = (if hardRackAntiAffinityPartitions pg = 0 then 0 else part)"

lemma createVMs_success:
  assumes "createVMs ho elapsed indices typeIndex pgIndex part m = Inr (True, out, m')"
  obtains pg b m4 m5 where
    "\<not> 14 \<le> elapsed" "1 \<le> typeIndex" "typeIndex \<le> int (length (types m))"
    "pgsByIndex m pgIndex = Some pg" "indices \<noteq> []"
    "searchPlan ho pgIndex indices (requestType m typeIndex)
       (registerVMs (requestType m typeIndex) pgIndex (requestPartition pg part) 0 indices m)
     = (Some b, m4)"
    "commit (placements b) indices [] m4 = Inr (out, m5)"
    "m' = updateTargets pgIndex m5"
proof -
  from assms have el: "\<not> 14 \<le> elapsed" by (auto simp: createVMs_def)
  from assms el have ti: "1 \<le> typeIndex" "typeIndex \<le> int (length (types m))"
    by (auto simp: createVMs_def split: if_splits)
  from assms el ti obtain pg where pg: "pgsByIndex m pgIndex = Some pg"
    by (auto simp: createVMs_def split: option.splits)
  from assms el ti pg have ne: "indices \<noteq> []"
    by (auto simp: createVMs_def Let_def split: if_splits)
  from assms el ti pg ne that show ?thesis
    by (auto simp: createVMs_def searchPlan_def requestType_def requestPartition_def
        Let_def split_def split: option.splits sum.splits)
qed

lemma fp_searchPlan:
  assumes ty: "ty \<in> set (types m1)"
    and first: "\<And>i vm rest. indices = i # rest \<Longrightarrow> vmsByIndex m1 i = Some vm \<Longrightarrow> vm_type vm = ty"
  shows "fp (placeGuard ty (set indices) UNIV) (set indices) m1
           (snd (searchPlan ho g indices ty m1))"
proof -
  let ?G = "placeGuard ty (set indices) UNIV"
  let ?B = "set indices"
  let ?r = "getRackGroups2 indices m1"
  let ?l = "groupsLoop ho g indices ty (fst ?r) None (snd ?r)"
  have f12: "fp ?G ?B m1 (snd ?r)"
  proof (rule fp_getRackGroups2)
    fix i vm rest
    assume "indices = i # rest" "vmsByIndex m1 i = Some vm"
    from first [OF this] ty show "vm_type vm \<in> set (types m1)" by simp
  qed
  have ty2: "ty \<in> set (types (snd ?r))" using ty fp_types [OF f12] by simp
  have f23: "fp ?G ?B (snd ?r) (snd ?l)"
    by (rule fp_groupsLoop [OF ty2]) simp
  have f34: "fp ?G ?B (snd ?l) (unplaceVMs indices (snd ?l))"
    by (rule fp_unplaceVMs) simp
  from fp_trans [OF fp_trans [OF f12 f23] f34] show ?thesis
    by (simp add: searchPlan_def split_def Let_def)
qed

lemma registerVMs_first:
  assumes "\<forall>i \<in> set indices. vmsByIndex m i = None"
    and "indices = i # rest" and "vmsByIndex (registerVMs ty g part k indices m) i = Some vm"
  shows "vm_type vm = ty"
proof -
  from assms have "i \<in> set indices" "vmsByIndex m i = None" by auto
  from registerVMs_new [OF this, of ty g part k] obtain vm'
    where "vmsByIndex (registerVMs ty g part k indices m) i = Some vm'" "vm_type vm' = ty"
    by blast
  with assms(3) show ?thesis by simp
qed



section \<open>The type-fit cache\<close>



section \<open>What a batch holds of the fleet\<close>

text \<open>The resources that the VM \<open>i\<close> holds at the object \<open>x\<close>, and its entry in the
  table of its home PM.\<close>

definition usedCPU :: "Manager \<Rightarrow> int \<Rightarrow> obj \<Rightarrow> int" where
  "usedCPU m i x =
     (case vmsByIndex m i of
        None \<Rightarrow> 0
      | Some vm \<Rightarrow> hits x (vm_nodes vm) * t_cpu (vm_type vm))"

definition usedMemory :: "Manager \<Rightarrow> int \<Rightarrow> obj \<Rightarrow> int" where
  "usedMemory m i x =
     (case vmsByIndex m i of
        None \<Rightarrow> 0
      | Some vm \<Rightarrow> hits x (vm_nodes vm) * t_memory (vm_type vm))"

definition homeCount :: "Manager \<Rightarrow> int \<Rightarrow> pmId \<Rightarrow> int \<Rightarrow> int" where
  "homeCount m i p g =
     (case vmsByIndex m i of
        None \<Rightarrow> 0
      | Some vm \<Rightarrow> homeHit (vm_nodes vm) (vm_pg vm) p g)"

text \<open>What would be available, and counted, were the VMs of \<open>B\<close> not placed.\<close>

definition freeCPU :: "Manager \<Rightarrow> int list \<Rightarrow> obj \<Rightarrow> int" where
  "freeCPU m B x = availableCPU (store m x) + sum_list (map (\<lambda>i. usedCPU m i x) B)"

definition freeMemory :: "Manager \<Rightarrow> int list \<Rightarrow> obj \<Rightarrow> int" where
  "freeMemory m B x = availableMemory (store m x) + sum_list (map (\<lambda>i. usedMemory m i x) B)"

definition otherCount :: "Manager \<Rightarrow> int list \<Rightarrow> pmId \<Rightarrow> int \<Rightarrow> int" where
  "otherCount m B p g = vmsByPG m p g - sum_list (map (\<lambda>i. homeCount m i p g) B)"

definition sameLedger :: "int list \<Rightarrow> Manager \<Rightarrow> Manager \<Rightarrow> bool" where
  "sameLedger B m m' \<longleftrightarrow>
     freeCPU m' B = freeCPU m B \<and> freeMemory m' B = freeMemory m B
     \<and> otherCount m' B = otherCount m B"

lemma sameLedger_refl [simp]: "sameLedger B m m"
  by (simp add: sameLedger_def)

lemma sameLedger_trans: "sameLedger B a b \<Longrightarrow> sameLedger B b c \<Longrightarrow> sameLedger B a c"
  by (simp add: sameLedger_def)

lemma sum_list_same:
  fixes f f' :: "int \<Rightarrow> int"
  shows "(\<And>j. j \<in> set B \<Longrightarrow> f' j = f j) \<Longrightarrow> sum_list (map f' B) = sum_list (map f B)"
  by (induction B) auto

lemma sum_list_change_one:
  fixes f f' :: "int \<Rightarrow> int"
  assumes "distinct B" and "i \<in> set B" and "\<And>j. j \<in> set B \<Longrightarrow> j \<noteq> i \<Longrightarrow> f' j = f j"
  shows "sum_list (map f' B) = sum_list (map f B) - f i + f' i"
  using assms
proof (induction B)
  case Nil
  then show ?case by simp
next
  case (Cons b B)
  show ?case
  proof (cases "b = i")
    case True
    with Cons.prems have "i \<notin> set B" by simp
    with Cons.prems have "sum_list (map f' B) = sum_list (map f B)"
      by (intro sum_list_same) auto
    with True show ?thesis by simp
  next
    case False
    with Cons.prems have "sum_list (map f' B) = sum_list (map f B) - f i + f' i"
      by (intro Cons.IH) auto
    moreover from False Cons.prems have "f' b = f b" by simp
    ultimately show ?thesis by simp
  qed
qed

lemma sum_list_zero:
  fixes f :: "int \<Rightarrow> int"
  shows "(\<And>j. j \<in> set B \<Longrightarrow> f j = 0) \<Longrightarrow> sum_list (map f B) = 0"
  by (induction B) auto

lemma used_unplaced:
  "\<not> placed m i \<Longrightarrow> usedCPU m i x = 0 \<and> usedMemory m i x = 0 \<and> homeCount m i p g = 0"
  by (auto simp: placed_def isPlaced_def usedCPU_def usedMemory_def homeCount_def homeHit_def
      split: option.splits)

lemma free_all_unplaced:
  assumes "\<forall>i \<in> set B. \<not> placed m i"
  shows "freeCPU m B x = availableCPU (store m x)"
    and "freeMemory m B x = availableMemory (store m x)"
    and "otherCount m B p g = vmsByPG m p g"
proof -
  have "sum_list (map (\<lambda>i. usedCPU m i x) B) = 0"
    "sum_list (map (\<lambda>i. usedMemory m i x) B) = 0"
    "sum_list (map (\<lambda>i. homeCount m i p g) B) = 0"
    using assms by (auto intro!: sum_list_zero simp: used_unplaced)
  then show "freeCPU m B x = availableCPU (store m x)"
    and "freeMemory m B x = availableMemory (store m x)"
    and "otherCount m B p g = vmsByPG m p g"
    by (simp_all add: freeCPU_def freeMemory_def otherCount_def)
qed

lemma sameLedger_place:
  assumes B: "distinct B" "i \<in> set B" and np: "\<not> placed m i"
  shows "sameLedger B m (place i ns m)"
proof (cases "vmsByIndex m i")
  case None
  then show ?thesis by simp
next
  case (Some vm)
  have other: "usedCPU (place i ns m) j x = usedCPU m j x"
    "usedMemory (place i ns m) j x = usedMemory m j x"
    "homeCount (place i ns m) j p g = homeCount m j p g" if "j \<noteq> i" for j x p g
    using that by (simp_all add: usedCPU_def usedMemory_def homeCount_def place_vms [OF Some])
  have self: "usedCPU (place i ns m) i x = hits x ns * t_cpu (vm_type vm)"
    "usedMemory (place i ns m) i x = hits x ns * t_memory (vm_type vm)"
    "homeCount (place i ns m) i p g = homeHit ns (vm_pg vm) p g" for x p g
    by (simp_all add: usedCPU_def usedMemory_def homeCount_def place_vms [OF Some])
  have "freeCPU (place i ns m) B x = freeCPU m B x" for x
    using sum_list_change_one [OF B, of "\<lambda>j. usedCPU (place i ns m) j x" "\<lambda>j. usedCPU m j x"]
      used_unplaced [OF np, of x]
    by (simp add: freeCPU_def other self place_store [OF Some])
  moreover have "freeMemory (place i ns m) B x = freeMemory m B x" for x
    using sum_list_change_one [OF B, of "\<lambda>j. usedMemory (place i ns m) j x" "\<lambda>j. usedMemory m j x"]
      used_unplaced [OF np, of x]
    by (simp add: freeMemory_def other self place_store [OF Some])
  moreover have "otherCount (place i ns m) B p g = otherCount m B p g" for p g
    using sum_list_change_one [OF B, of "\<lambda>j. homeCount (place i ns m) j p g" "\<lambda>j. homeCount m j p g"]
      used_unplaced [OF np, of _ p g]
    by (simp add: otherCount_def other self place_vmsByPG [OF Some])
  ultimately show ?thesis by (simp add: sameLedger_def fun_eq_iff)
qed

lemma sameLedger_unplace:
  assumes B: "distinct B" "i \<in> set B"
  shows "sameLedger B m (unplace i m)"
proof (cases "vmsByIndex m i")
  case None
  then show ?thesis by simp
next
  case (Some vm)
  have other: "usedCPU (unplace i m) j x = usedCPU m j x"
    "usedMemory (unplace i m) j x = usedMemory m j x"
    "homeCount (unplace i m) j p g = homeCount m j p g" if "j \<noteq> i" for j x p g
    using that by (simp_all add: usedCPU_def usedMemory_def homeCount_def unplace_vms [OF Some])
  have self: "usedCPU (unplace i m) i x = 0" "usedMemory (unplace i m) i x = 0"
    "homeCount (unplace i m) i p g = 0" for x p g
    by (simp_all add: usedCPU_def usedMemory_def homeCount_def unplace_vms [OF Some] homeHit_def)
  have old: "usedCPU m i x = hits x (vm_nodes vm) * t_cpu (vm_type vm)"
    "usedMemory m i x = hits x (vm_nodes vm) * t_memory (vm_type vm)"
    "homeCount m i p g = homeHit (vm_nodes vm) (vm_pg vm) p g" for x p g
    by (simp_all add: usedCPU_def usedMemory_def homeCount_def Some)
  have "freeCPU (unplace i m) B x = freeCPU m B x" for x
    using sum_list_change_one [OF B, of "\<lambda>j. usedCPU (unplace i m) j x" "\<lambda>j. usedCPU m j x"]
    by (simp add: freeCPU_def other self old unplace_store [OF Some])
  moreover have "freeMemory (unplace i m) B x = freeMemory m B x" for x
    using sum_list_change_one [OF B, of "\<lambda>j. usedMemory (unplace i m) j x" "\<lambda>j. usedMemory m j x"]
    by (simp add: freeMemory_def other self old unplace_store [OF Some])
  moreover have "otherCount (unplace i m) B p g = otherCount m B p g" for p g
    using sum_list_change_one [OF B, of "\<lambda>j. homeCount (unplace i m) j p g" "\<lambda>j. homeCount m j p g"]
    by (simp add: otherCount_def other self old unplace_vmsByPG [OF Some])
  ultimately show ?thesis by (simp add: sameLedger_def fun_eq_iff)
qed

text \<open>A step that leaves the resources, the tables and the VM registry alone.\<close>

lemma sameLedger_frame:
  assumes "\<And>x. availableCPU (store m' x) = availableCPU (store m x)"
    and "\<And>x. availableMemory (store m' x) = availableMemory (store m x)"
    and "vmsByPG m' = vmsByPG m" and "vmsByIndex m' = vmsByIndex m"
  shows "sameLedger B m m'"
  using assms
  by (simp add: sameLedger_def freeCPU_def freeMemory_def otherCount_def usedCPU_def
      usedMemory_def homeCount_def fun_eq_iff)

lemma fp_sameLedger:
  assumes "fp (placeGuard ty (set B) R) (set B) m m'" and "distinct B"
  shows "sameLedger B m m'"
  using assms(1)
proof (induction rule: fp.induct)
  case (fp_refl m)
  show ?case by simp
next
  case (fp_fill m m1 ty' x)
  have "sameLedger B m1 (snd (getTypeFit x ty' m1))"
    by (rule sameLedger_frame) (simp_all add: cacheOnly_fields [OF cacheOnly_getTypeFit])
  with fp_fill.IH show ?case by (rule sameLedger_trans)
next
  case (fp_place m m1 i ns)
  then have "sameLedger B m1 (place i ns m1)"
    using assms(2) by (intro sameLedger_place) (simp_all add: placeGuard_def)
  with fp_place.IH show ?case by (rule sameLedger_trans)
next
  case (fp_unplace m m1 i)
  then have "sameLedger B m1 (unplace i m1)"
    using assms(2) by (intro sameLedger_unplace) simp_all
  with fp_unplace.IH show ?case by (rule sameLedger_trans)
next
  case (fp_update m m1 g)
  have "sameLedger B m1 (updateTargets g m1)"
    by (rule sameLedger_frame) simp_all
  with fp_update.IH show ?case by (rule sameLedger_trans)
qed

definition sameTopology :: "Manager \<Rightarrow> Manager \<Rightarrow> bool" where
  "sameTopology m m' \<longleftrightarrow>
     (\<forall>x. availableCPU (store m' x) = availableCPU (store m x)
          \<and> availableMemory (store m' x) = availableMemory (store m x))
     \<and> vmsByPG m' = vmsByPG m"

lemma sameTopology_ledger:
  assumes "sameLedger B m m'" and "\<forall>i \<in> set B. \<not> placed m i" and "\<forall>i \<in> set B. \<not> placed m' i"
  shows "sameTopology m m'"
proof -
  have "availableCPU (store m' x) = availableCPU (store m x)" for x
    using assms free_all_unplaced(1) [of B m x] free_all_unplaced(1) [of B m' x]
    by (simp add: sameLedger_def)
  moreover have "availableMemory (store m' x) = availableMemory (store m x)" for x
    using assms free_all_unplaced(2) [of B m x] free_all_unplaced(2) [of B m' x]
    by (simp add: sameLedger_def)
  moreover have "vmsByPG m' p g = vmsByPG m p g" for p g
    using assms free_all_unplaced(3) [of B m p g] free_all_unplaced(3) [of B m' p g]
    by (simp add: sameLedger_def)
  ultimately show ?thesis by (simp add: sameTopology_def fun_eq_iff)
qed

lemma placed_registerVMs:
  assumes "\<forall>i \<in> set ids. vmsByIndex m i = None"
  shows "placed (registerVMs ty g part k ids m) j = placed m j"
proof (cases "j \<in> set ids")
  case True
  with assms have n: "vmsByIndex m j = None" by simp
  from registerVMs_new [OF True n, of ty g part k] n show ?thesis
    by (auto simp: placed_def isPlaced_def)
next
  case False
  then show ?thesis by (simp add: placed_def registerVMs_other)
qed

lemma search_sameTopology:
  assumes d: "distinct indices" and fresh: "\<forall>i \<in> set indices. vmsByIndex m i = None"
    and ty: "ty \<in> set (types m)"
  shows "sameTopology m (snd (searchPlan ho g indices ty (registerVMs ty g part 0 indices m)))"
    and "\<forall>i \<in> set indices.
           \<not> placed (snd (searchPlan ho g indices ty (registerVMs ty g part 0 indices m))) i"
proof -
  let ?m1 = "registerVMs ty g part 0 indices m"
  let ?m4 = "snd (searchPlan ho g indices ty ?m1)"
  have "\<not> placed m i" if "i \<in> set indices" for i
    using that fresh by (simp add: placed_def)
  then have un1: "\<forall>i \<in> set indices. \<not> placed ?m1 i"
    by (simp add: placed_registerVMs [OF fresh])
  show un4: "\<forall>i \<in> set indices. \<not> placed ?m4 i"
    by (simp add: searchPlan_def split_def Let_def placed_unplaceVMs)
  have "fp (placeGuard ty (set indices) UNIV) (set indices) ?m1 ?m4"
  proof (rule fp_searchPlan)
    show "ty \<in> set (types ?m1)" using ty by simp
  next
    fix i vm rest
    assume "indices = i # rest" "vmsByIndex ?m1 i = Some vm"
    then show "vm_type vm = ty" by (rule registerVMs_first [OF fresh])
  qed
  from fp_sameLedger [OF this d] have "sameLedger indices ?m1 ?m4" .
  from sameTopology_ledger [OF this un1 un4] show "sameTopology m ?m4"
    by (simp add: sameTopology_def)
qed

lemma sameLedger_pointwise:
  assumes "\<And>x. availableCPU (store m' x) = availableCPU (store m x)"
    and "\<And>x. availableMemory (store m' x) = availableMemory (store m x)"
    and "vmsByPG m' = vmsByPG m"
    and "\<And>j x. usedCPU m' j x = usedCPU m j x"
    and "\<And>j x. usedMemory m' j x = usedMemory m j x"
    and "\<And>j p g. homeCount m' j p g = homeCount m j p g"
  shows "sameLedger B m m'"
  using assms
  by (simp add: sameLedger_def freeCPU_def freeMemory_def otherCount_def fun_eq_iff)

lemma used_registerVMs:
  assumes "\<forall>i \<in> set ids. vmsByIndex m i = None"
  shows "usedCPU (registerVMs ty g part k ids m) j x = usedCPU m j x"
    and "usedMemory (registerVMs ty g part k ids m) j x = usedMemory m j x"
    and "homeCount (registerVMs ty g part k ids m) j p h = homeCount m j p h"
proof -
  have "usedCPU (registerVMs ty g part k ids m) j x = usedCPU m j x
      \<and> usedMemory (registerVMs ty g part k ids m) j x = usedMemory m j x
      \<and> homeCount (registerVMs ty g part k ids m) j p h = homeCount m j p h"
  proof (cases "j \<in> set ids")
    case True
    with assms have n: "vmsByIndex m j = None" by simp
    from registerVMs_new [OF True n, of ty g part k] n show ?thesis
      by (auto simp: usedCPU_def usedMemory_def homeCount_def homeHit_def)
  next
    case False
    then show ?thesis
      by (simp add: usedCPU_def usedMemory_def homeCount_def registerVMs_other)
  qed
  then show "usedCPU (registerVMs ty g part k ids m) j x = usedCPU m j x"
    and "usedMemory (registerVMs ty g part k ids m) j x = usedMemory m j x"
    and "homeCount (registerVMs ty g part k ids m) j p h = homeCount m j p h"
    by simp_all
qed

lemma sameLedger_registerVMs:
  "\<forall>i \<in> set ids. vmsByIndex m i = None \<Longrightarrow> sameLedger B m (registerVMs ty g part k ids m)"
  by (rule sameLedger_pointwise) (simp_all add: used_registerVMs)

lemma commit_ledger:
  assumes "commit plan ids out m = Inr (out', m')"
    and "distinct ids" and "set ids \<subseteq> set B" and "distinct B"
    and "\<forall>i \<in> set ids. \<not> placed m i" and "\<forall>i \<in> set ids. vmsByIndex m i \<noteq> None"
  shows "sameLedger B m m'
         \<and> (\<forall>i \<in> set ids. \<exists>vm. vmsByIndex m' i = Some vm \<and> vm_nodes vm \<noteq> [])
         \<and> (\<forall>j. j \<notin> set ids \<longrightarrow> vmsByIndex m' j = vmsByIndex m j)
         \<and> pgsByIndex m' = pgsByIndex m"
  using assms
proof (induction ids arbitrary: out m)
  case Nil
  then show ?case by simp
next
  case (Cons i ids)
  from Cons.prems(1) obtain n ns where
    plan: "(case map_of plan i of None \<Rightarrow> [] | Some ns \<Rightarrow> ns) = n # ns"
    and rest: "commit plan ids (out @ [outputLine (n # ns)]) (place i (n # ns) m) = Inr (out', m')"
    by (auto split: list.splits)
  let ?m1 = "place i (n # ns) m"
  from Cons.prems obtain vm where vm: "vmsByIndex m i = Some vm" by auto
  have l1: "sameLedger B m ?m1"
    using Cons.prems by (intro sameLedger_place) auto
  have pre: "\<forall>j \<in> set ids. \<not> placed ?m1 j" "\<forall>j \<in> set ids. vmsByIndex ?m1 j \<noteq> None"
    using Cons.prems by (auto simp: placed_place place_vms [OF vm])
  from Cons.IH [OF rest _ _ Cons.prems(4) pre] Cons.prems(2,3)
  have ih: "sameLedger B ?m1 m'"
    "\<forall>j \<in> set ids. \<exists>vm. vmsByIndex m' j = Some vm \<and> vm_nodes vm \<noteq> []"
    "\<forall>j. j \<notin> set ids \<longrightarrow> vmsByIndex m' j = vmsByIndex ?m1 j"
    "pgsByIndex m' = pgsByIndex ?m1"
    by auto
  from ih(3) Cons.prems(2) have "vmsByIndex m' i = vmsByIndex ?m1 i" by simp
  then have "\<exists>vm. vmsByIndex m' i = Some vm \<and> vm_nodes vm \<noteq> []"
    by (simp add: place_vms [OF vm])
  moreover have "\<forall>j. j \<notin> set (i # ids) \<longrightarrow> vmsByIndex m' j = vmsByIndex m j"
    using ih(3) by (simp add: place_vms [OF vm])
  ultimately show ?case
    using sameLedger_trans [OF l1 ih(1)] ih(2,4) by simp
qed

lemma sameLedger_erase:
  assumes "\<not> placed m i" and "store m' = store m" and "vmsByPG m' = vmsByPG m"
    and "vmsByIndex m' = (vmsByIndex m)(i := None)"
  shows "sameLedger B m m'"
proof (rule sameLedger_pointwise)
  fix j x p g
  show "usedCPU m' j x = usedCPU m j x" "usedMemory m' j x = usedMemory m j x"
    "homeCount m' j p g = homeCount m j p g"
    using used_unplaced [OF assms(1), of x p g] assms(4)
    by (auto simp: usedCPU_def usedMemory_def homeCount_def)
qed (simp_all add: assms)

lemma deleteVMs_ledger:
  assumes "distinct ids" and "set ids \<subseteq> set B" and "distinct B"
    and "\<forall>i \<in> set ids. \<exists>vm. vmsByIndex m i = Some vm \<and> vm_nodes vm \<noteq> []"
  shows "\<exists>m'. deleteVMs ids m = Inr m' \<and> sameLedger B m m'
           \<and> (\<forall>i \<in> set ids. vmsByIndex m' i = None)
           \<and> (\<forall>j. j \<notin> set ids \<longrightarrow> vmsByIndex m' j = vmsByIndex m j)"
  using assms
proof (induction ids arbitrary: m)
  case Nil
  then show ?case by simp
next
  case (Cons i ids)
  from Cons.prems obtain vm where vm: "vmsByIndex m i = Some vm" "vm_nodes vm \<noteq> []" by auto
  let ?m1 = "unplace i m"
  define m3 where "m3 =
     (case pgsByIndex ?m1 (vm_pg vm) of
        None \<Rightarrow> ?m1
      | Some pg \<Rightarrow>
          ?m1\<lparr>pgsByIndex := (pgsByIndex ?m1)
               (vm_pg vm \<mapsto> pg\<lparr>vms := removeAll i (vms pg)\<rparr>)\<rparr>)
     \<lparr>vmsByIndex := (vmsByIndex ?m1)(i := None)\<rparr>"
  have step: "deleteVMs (i # ids) m = deleteVMs ids m3"
    using vm by (simp add: Let_def m3_def split: option.splits)
  have m3: "store m3 = store ?m1" "vmsByPG m3 = vmsByPG ?m1"
    "vmsByIndex m3 = (vmsByIndex ?m1)(i := None)"
    by (simp_all add: m3_def split: option.splits)
  have l1: "sameLedger B m ?m1"
    using Cons.prems by (intro sameLedger_unplace) auto
  have l2: "sameLedger B ?m1 m3"
    by (rule sameLedger_erase [OF _ m3]) (simp add: placed_unplace)
  have keep: "vmsByIndex m3 j = vmsByIndex m j" if "j \<noteq> i" for j
    using that unfolding m3(3) by (simp add: unplace_vms [OF vm(1)])
  have "j \<noteq> i" if "j \<in> set ids" for j
    using that Cons.prems(1) by auto
  with Cons.prems(4)
  have pre: "\<forall>j \<in> set ids. \<exists>vm. vmsByIndex m3 j = Some vm \<and> vm_nodes vm \<noteq> []"
    by (simp add: keep)
  from Cons.IH [OF _ _ Cons.prems(3) pre] Cons.prems(1,2)
  obtain m' where ih: "deleteVMs ids m3 = Inr m'" "sameLedger B m3 m'"
    "\<forall>j \<in> set ids. vmsByIndex m' j = None"
    "\<forall>j. j \<notin> set ids \<longrightarrow> vmsByIndex m' j = vmsByIndex m3 j"
    by auto
  from ih(4) Cons.prems(1) have "vmsByIndex m' i = vmsByIndex m3 i" by simp
  then have "vmsByIndex m' i = None" unfolding m3(3) by simp
  moreover have "\<forall>j. j \<notin> set (i # ids) \<longrightarrow> vmsByIndex m' j = vmsByIndex m j"
    using ih(4) by (simp add: keep)
  ultimately show ?case
    using step ih(1,3) sameLedger_trans [OF sameLedger_trans [OF l1 l2] ih(2)] by simp
qed

text \<open>The VM registry along the search: only the nodes of the VMs of the batch change.\<close>

definition sameVMs :: "int set \<Rightarrow> Manager \<Rightarrow> Manager \<Rightarrow> bool" where
  "sameVMs B m m' \<longleftrightarrow>
     (\<forall>i. i \<notin> B \<longrightarrow> vmsByIndex m' i = vmsByIndex m i)
     \<and> (\<forall>i. map_option (\<lambda>vm. vm\<lparr>vm_nodes := []\<rparr>) (vmsByIndex m' i)
             = map_option (\<lambda>vm. vm\<lparr>vm_nodes := []\<rparr>) (vmsByIndex m i))"

lemma sameVMs_refl [simp]: "sameVMs B m m"
  by (simp add: sameVMs_def)

lemma sameVMs_trans: "sameVMs B a b \<Longrightarrow> sameVMs B b c \<Longrightarrow> sameVMs B a c"
  by (simp add: sameVMs_def)

lemma sameVMs_eq: "vmsByIndex m' = vmsByIndex m \<Longrightarrow> sameVMs B m m'"
  by (simp add: sameVMs_def)

lemma sameVMs_place: "i \<in> B \<Longrightarrow> sameVMs B m (place i ns m)"
  by (cases "vmsByIndex m i") (simp_all add: sameVMs_def place_vms)

lemma sameVMs_unplace: "i \<in> B \<Longrightarrow> sameVMs B m (unplace i m)"
  by (cases "vmsByIndex m i") (simp_all add: sameVMs_def unplace_vms)

lemma fp_sameVMs:
  assumes "fp (placeGuard ty B R) B m m'"
  shows "sameVMs B m m'"
  using assms
proof (induction rule: fp.induct)
  case (fp_refl m)
  show ?case by simp
next
  case (fp_fill m m1 ty' x)
  have "sameVMs B m1 (snd (getTypeFit x ty' m1))"
    by (rule sameVMs_eq) (simp add: cacheOnly_fields [OF cacheOnly_getTypeFit])
  with fp_fill.IH show ?case by (rule sameVMs_trans)
next
  case (fp_place m m1 i ns)
  then have "sameVMs B m1 (place i ns m1)"
    by (intro sameVMs_place) (simp add: placeGuard_def)
  with fp_place.IH show ?case by (rule sameVMs_trans)
next
  case (fp_unplace m m1 i)
  then have "sameVMs B m1 (unplace i m1)" by (intro sameVMs_unplace)
  with fp_unplace.IH show ?case by (rule sameVMs_trans)
next
  case (fp_update m m1 g)
  have "sameVMs B m1 (updateTargets g m1)" by (rule sameVMs_eq) simp
  with fp_update.IH show ?case by (rule sameVMs_trans)
qed

lemma sameVMs_exists: "sameVMs B m m' \<Longrightarrow> (vmsByIndex m' i = None) = (vmsByIndex m i = None)"
  by (auto simp: sameVMs_def dest!: spec [of _ i])


section \<open>The search and the topology\<close>


definition fleetTight :: Manager where
  "fleetTight = createPG 1 0 0 NONE NONE (initManager 1 1 2 [3] [3] [(1, 2, 2)])"





section \<open>Creating and deleting\<close>

text \<open>
  C3. A successful type-2 request (with new, distinct VM indices, as the input format
  guarantees) followed at once by a type-3 request over the same indices: the deletion
  succeeds, and afterwards the available CPU and memory of every node, PM, rack and domain
  and the \<^verbatim>\<open>vmsByPG\<close> counts of every PM are what they were before the type-2
  request.
\<close>

theorem create_delete_roundtrip:
  assumes d: "distinct indices" and fresh: "\<forall>i \<in> set indices. vmsByIndex m i = None"
    and c: "createVMs ho elapsed indices typeIndex pgIndex part m = Inr (True, out, m1)"
  shows "\<exists>m2. deleteVMs indices m1 = Inr m2 \<and> sameTopology m m2"
proof (rule createVMs_success [OF c])
  fix pg b m4 m5
  assume ti: "1 \<le> typeIndex" "typeIndex \<le> int (length (types m))"
    and s: "searchPlan ho pgIndex indices (requestType m typeIndex)
              (registerVMs (requestType m typeIndex) pgIndex (requestPartition pg part)
                 0 indices m) = (Some b, m4)"
    and k: "commit (placements b) indices [] m4 = Inr (out, m5)"
    and m1: "m1 = updateTargets pgIndex m5"
  let ?ty = "requestType m typeIndex"
  let ?m0 = "registerVMs ?ty pgIndex (requestPartition pg part) 0 indices m"
  from ti have ty: "?ty \<in> set (types m)"
    by (simp add: requestType_def)
  have m4: "m4 = snd (searchPlan ho pgIndex indices ?ty ?m0)" using s by simp
  have l1: "sameLedger indices m ?m0" by (rule sameLedger_registerVMs [OF fresh])
  have f: "fp (placeGuard ?ty (set indices) UNIV) (set indices) ?m0 m4"
    unfolding m4
  proof (rule fp_searchPlan)
    show "?ty \<in> set (types ?m0)" using ty by simp
  next
    fix i vm rest
    assume "indices = i # rest" "vmsByIndex ?m0 i = Some vm"
    then show "vm_type vm = ?ty" by (rule registerVMs_first [OF fresh])
  qed
  from fp_sameLedger [OF f d] have l2: "sameLedger indices ?m0 m4" .
  from search_sameTopology(2) [OF d fresh ty, of ho pgIndex "requestPartition pg part"]
  have un4: "\<forall>i \<in> set indices. \<not> placed m4 i" unfolding m4 .
  have ex4: "\<forall>i \<in> set indices. vmsByIndex m4 i \<noteq> None"
  proof
    fix i assume i: "i \<in> set indices"
    with fresh have "vmsByIndex m i = None" by simp
    from registerVMs_new [OF i this, of ?ty pgIndex "requestPartition pg part" 0]
    have "vmsByIndex ?m0 i \<noteq> None" by auto
    then show "vmsByIndex m4 i \<noteq> None"
      by (simp add: sameVMs_exists [OF fp_sameVMs [OF f]])
  qed
  from commit_ledger [OF k d subset_refl d un4 ex4]
  have l3: "sameLedger indices m4 m5"
    and ex5: "\<forall>i \<in> set indices. \<exists>vm. vmsByIndex m5 i = Some vm \<and> vm_nodes vm \<noteq> []"
    by simp_all
  have l4: "sameLedger indices m5 m1" unfolding m1 by (rule sameLedger_frame) simp_all
  have ex1: "\<forall>i \<in> set indices. \<exists>vm. vmsByIndex m1 i = Some vm \<and> vm_nodes vm \<noteq> []"
    using ex5 unfolding m1 by simp
  from deleteVMs_ledger [OF d subset_refl d ex1]
  obtain m2 where del: "deleteVMs indices m1 = Inr m2" and l5: "sameLedger indices m1 m2"
    and gone: "\<forall>i \<in> set indices. vmsByIndex m2 i = None"
    by blast
  have l: "sameLedger indices m m2"
    by (rule sameLedger_trans [OF l1]) (intro sameLedger_trans [OF l2] sameLedger_trans [OF l3]
        sameLedger_trans [OF l4] l5)
  have "sameTopology m m2"
    by (rule sameTopology_ledger [OF l]) (simp_all add: placed_def fresh gone)
  with del show ?thesis by blast
qed

theorem create_delete_roundtrip_witness:
  "\<exists>out m1 m2. createVMs insertionOrder 0 [1, 2] 1 1 0 fleetTight = Inr (True, out, m1)
     \<and> deleteVMs [1, 2] m1 = Inr m2 \<and> sameTopology fleetTight m2"
proof -
  have "case createVMs insertionOrder 0 [1, 2] 1 1 0 fleetTight of
          Inr (ok, out, m') \<Rightarrow> ok | Inl e \<Rightarrow> False"
    by code_simp
  then obtain out m1 where
    c: "createVMs insertionOrder 0 [1, 2] 1 1 0 fleetTight = Inr (True, out, m1)"
    by (auto split: sum.splits)
  have d: "distinct [1, 2 :: int]" by simp
  have f: "\<forall>i \<in> set [1, 2]. vmsByIndex fleetTight i = None"
    by (simp add: fleetTight_def createPG_def initManager_def)
  from create_delete_roundtrip [OF d f c] c show ?thesis by blast
qed

end
